theory Spec2Isabelle
  imports Main "HOL-Library.AList"
begin

unbundle bit_operations_syntax

section \<open>Exceptions and Python list primitives\<close>

text \<open>
  Every exception the modelled code can raise. All explicit \<^verbatim>\<open>raise\<close> statements of
  \<^verbatim>\<open>bits.py\<close> and \<^verbatim>\<open>cubes.py\<close> raise \<^verbatim>\<open>ValueError\<close>; the argument records which
  statement it was. \<^verbatim>\<open>IndexError\<close> comes from list and string subscripts,
  \<^verbatim>\<open>TypeError\<close> from \<^verbatim>\<open>int & float\<close>.
\<close>

datatype value_error =
    BadlyFormedBitString      \<comment> \<open>\<^verbatim>\<open>bit_string_to_int\<close>\<close>
  | NumberOutOfRange          \<comment> \<open>\<^verbatim>\<open>int_to_bit_string\<close>, first check\<close>
  | DimensionNegative         \<comment> \<open>\<^verbatim>\<open>int_to_bit_string\<close>, \<^verbatim>\<open>permute_bits_by_index_list\<close>\<close>
  | NumberNegative            \<comment> \<open>\<^verbatim>\<open>weight\<close>\<close>
  | IndexListWrongLength      \<comment> \<open>\<^verbatim>\<open>permute_bits_by_index_list\<close>\<close>
  | NotAValidPermutation      \<comment> \<open>\<^verbatim>\<open>permute_bits_by_index_list\<close>\<close>
  | PatternNotOverAlphabet    \<comment> \<open>\<^verbatim>\<open>pattern_to_int_list\<close>, first check\<close>
  | PatternWrongLength        \<comment> \<open>\<^verbatim>\<open>pattern_to_int_list\<close>, second check\<close>
  | VertexDoesNotExist        \<comment> \<open>\<^verbatim>\<open>VertexSet.color_by_id\<close>\<close>
  | IsNotAnEdge               \<comment> \<open>\<^verbatim>\<open>EdgeSet.color_by_locations\<close>\<close>
  | NoEdgeBetween             \<comment> \<open>\<^verbatim>\<open>EdgeSet.color_by_ids\<close>\<close>

datatype error = ValueError value_error | IndexError | TypeError

text \<open>
  The position a subscript \<open>i\<close> denotes in a sequence of \<open>n\<close> items: Python counts a
  negative subscript from the end, and there is no position outside \<open>[-n, n)\<close>.
\<close>

definition py_index :: "nat \<Rightarrow> int \<Rightarrow> nat option" where
  "py_index n i =
     (if 0 \<le> i \<and> i < int n then Some (nat i)
      else if i < 0 \<and> - int n \<le> i then Some (nat (int n + i))
      else None)"

text \<open>\<^verbatim>\<open>xs[i]\<close> and \<^verbatim>\<open>xs[i] = v\<close>.\<close>

definition py_getitem :: "'a list \<Rightarrow> int \<Rightarrow> error + 'a" where
  "py_getitem xs i =
     (case py_index (length xs) i of None \<Rightarrow> Inl IndexError | Some k \<Rightarrow> Inr (xs ! k))"

definition py_setitem :: "'a list \<Rightarrow> int \<Rightarrow> 'a \<Rightarrow> error + 'a list" where
  "py_setitem xs i v =
     (case py_index (length xs) i of None \<Rightarrow> Inl IndexError | Some k \<Rightarrow> Inr (xs[k := v]))"

text \<open>\<^verbatim>\<open>range(n)\<close> and \<^verbatim>\<open>range(lo, n)\<close> as lists of Python ints.\<close>

definition py_range :: "int \<Rightarrow> int list" where
  "py_range n = [0..n - 1]"

definition py_range_from :: "int \<Rightarrow> int \<Rightarrow> int list" where
  "py_range_from lo n = [lo..n - 1]"

section \<open>bits.py\<close>

text \<open>\<^verbatim>\<open>BIT_STRING_PATTERN.fullmatch\<close> for \<^verbatim>\<open>[01]+\<close>.\<close>

definition BIT_STRING_PATTERN :: "string \<Rightarrow> bool" where
  "BIT_STRING_PATTERN s \<longleftrightarrow> s \<noteq> [] \<and> list_all (\<lambda>c. c = CHR ''0'' \<or> c = CHR ''1'') s"

text \<open>\<^verbatim>\<open>WILDCARD_STRING_PATTERN.fullmatch\<close> for \<^verbatim>\<open>[01*]+\<close>.\<close>

definition WILDCARD_STRING_PATTERN :: "string \<Rightarrow> bool" where
  "WILDCARD_STRING_PATTERN s \<longleftrightarrow>
     s \<noteq> [] \<and> list_all (\<lambda>c. c = CHR ''0'' \<or> c = CHR ''1'' \<or> c = CHR ''*'') s"

text \<open>\<^verbatim>\<open>int(bit)\<close> for a character that the pattern has let through.\<close>

definition int_of_bit :: "char \<Rightarrow> int" where
  "int_of_bit c = (if c = CHR ''1'' then 1 else 0)"

definition bit_string_to_int :: "string \<Rightarrow> error + int" where
  "bit_string_to_int bits =
     (if \<not> BIT_STRING_PATTERN bits then Inl (ValueError BadlyFormedBitString)
      else Inr (foldl (\<lambda>result bit. push_bit 1 result + int_of_bit bit) 0 bits))"

text \<open>
  The digits \<^verbatim>\<open>format(number, "b")\<close> prints for a nonnegative number, most significant
  first, and the padding \<^verbatim>\<open>"{:0<width>b}"\<close> puts in front of them.
\<close>

fun binary_digits :: "nat \<Rightarrow> string" where
  "binary_digits n =
     (if n < 2 then [if n = 1 then CHR ''1'' else CHR ''0'']
      else binary_digits (n div 2) @ [if n mod 2 = 1 then CHR ''1'' else CHR ''0''])"

declare binary_digits.simps [simp del]

definition format_zero_padded_binary :: "nat \<Rightarrow> int \<Rightarrow> string" where
  "format_zero_padded_binary width number =
     (let digits = binary_digits (nat number)
      in replicate (width - length digits) (CHR ''0'') @ digits)"

text \<open>
  For a negative \<^verbatim>\<open>dimension\<close> Python's \<^verbatim>\<open>2 ** dimension\<close> is a float: a positive one
  below 1 down to \<open>2 ** -1074\<close>, and \<open>0.0\<close> from \<open>2 ** -1075\<close> on. So the first test
  raises for every number but \<open>0\<close>, and for \<open>0\<close> as well once the float is \<open>0.0\<close>;
  otherwise the second test catches \<open>0\<close>.
\<close>

definition int_to_bit_string :: "int \<Rightarrow> int \<Rightarrow> error + string" where
  "int_to_bit_string number dimension =
     (if number < 0 \<or>
         (if dimension < - 1074 then 0 \<le> number
          else if dimension < 0 then 1 \<le> number
          else 2 ^ nat dimension \<le> number)
      then Inl (ValueError NumberOutOfRange)
      else if dimension < 0 then Inl (ValueError DimensionNegative)
      else if dimension = 0 then Inr ''0''
      else Inr (format_zero_padded_binary (nat dimension) number))"

function weight_loop :: "int \<Rightarrow> int \<Rightarrow> int" where
  "weight_loop number number_of_bits =
     (if number > 0 then weight_loop (drop_bit 1 number) (number_of_bits + number mod 2)
      else number_of_bits)"
  by pat_completeness auto
termination
  by (relation "measure (\<lambda>(number, number_of_bits). nat number)")
     (auto simp: drop_bit_eq_div)

declare weight_loop.simps [simp del]

definition weight :: "int \<Rightarrow> error + int" where
  "weight number =
     (if number < 0 then Inl (ValueError NumberNegative) else Inr (weight_loop number 0))"

text \<open>The accumulation \<^verbatim>\<open>[value := value + bit_string[i] for i in list_of_indices]\<close>.\<close>

fun gather_bits :: "string \<Rightarrow> int list \<Rightarrow> string \<Rightarrow> error + string" where
  "gather_bits bit_string [] acc = Inr acc"
| "gather_bits bit_string (i # rest) acc =
     (case py_getitem bit_string i of
        Inl e \<Rightarrow> Inl e
      | Inr c \<Rightarrow> gather_bits bit_string rest (acc @ [c]))"

definition permute_bits_by_index_list :: "int \<Rightarrow> int list \<Rightarrow> int \<Rightarrow> error + int" where
  "permute_bits_by_index_list number list_of_indices dimension =
     (if dimension < 0 then Inl (ValueError DimensionNegative)
      else if int (length list_of_indices) \<noteq> dimension
        then Inl (ValueError IndexListWrongLength)
      else if \<not> list_all (\<lambda>i. i \<in> set list_of_indices) (py_range dimension)
        then Inl (ValueError NotAValidPermutation)
      else case int_to_bit_string number dimension of
        Inl e \<Rightarrow> Inl e
      | Inr bit_string \<Rightarrow>
          (case gather_bits bit_string list_of_indices [] of
             Inl e \<Rightarrow> Inl e
           | Inr permuted \<Rightarrow> bit_string_to_int permuted))"

text \<open>
  \<^verbatim>\<open>number & (2 ** dimension - 1)\<close>. With a negative dimension the mask is a float and
  \<^verbatim>\<open>&\<close> raises \<^verbatim>\<open>TypeError\<close>.
\<close>

definition truncate_within_dimension :: "int \<Rightarrow> int \<Rightarrow> error + int" where
  "truncate_within_dimension number dimension =
     (if dimension < 0 then Inl TypeError
      else Inr (number AND (2 ^ nat dimension - 1)))"

text \<open>The inner function \<^verbatim>\<open>matches\<close> of \<^verbatim>\<open>pattern_to_int_list\<close>, and its loop.\<close>

fun matches_loop :: "string \<Rightarrow> string \<Rightarrow> int list \<Rightarrow> error + bool" where
  "matches_loop pattern number_as_string [] = Inr True"
| "matches_loop pattern number_as_string (i # rest) =
     (case py_getitem pattern i of
        Inl e \<Rightarrow> Inl e
      | Inr p \<Rightarrow>
          if p = CHR ''*'' then matches_loop pattern number_as_string rest
          else (case py_getitem number_as_string i of
                  Inl e \<Rightarrow> Inl e
                | Inr c \<Rightarrow>
                    if p \<noteq> c then Inr False
                    else matches_loop pattern number_as_string rest))"

definition matches :: "string \<Rightarrow> int \<Rightarrow> int \<Rightarrow> error + bool" where
  "matches pattern dimension number =
     (case int_to_bit_string number dimension of
        Inl e \<Rightarrow> Inl e
      | Inr number_as_string \<Rightarrow> matches_loop pattern number_as_string (py_range dimension))"

text \<open>\<^verbatim>\<open>list(filter(f, xs))\<close> for a predicate that may raise.\<close>

fun py_filter :: "('a \<Rightarrow> error + bool) \<Rightarrow> 'a list \<Rightarrow> error + 'a list" where
  "py_filter f [] = Inr []"
| "py_filter f (x # xs) =
     (case f x of
        Inl e \<Rightarrow> Inl e
      | Inr keep \<Rightarrow>
          (case py_filter f xs of
             Inl e \<Rightarrow> Inl e
           | Inr ys \<Rightarrow> Inr (if keep then x # ys else ys)))"

definition pattern_to_int_list :: "string \<Rightarrow> int \<Rightarrow> error + int list" where
  "pattern_to_int_list pattern dimension =
     (if \<not> WILDCARD_STRING_PATTERN pattern then Inl (ValueError PatternNotOverAlphabet)
      else if int (length pattern) \<noteq> dimension then Inl (ValueError PatternWrongLength)
      else let number_of_bit_strings = 2 ^ nat dimension
           in py_filter (matches pattern dimension) (py_range number_of_bit_strings))"

definition how_many_bit_strings :: "int \<Rightarrow> int" where
  "how_many_bit_strings dimension = (if dimension < 0 then 0 else 2 ^ nat dimension)"

section \<open>cubes.py: vertices\<close>

text \<open>
  \<^verbatim>\<open>Vertex\<close> objects are mutable and shared by reference: the list of a \<^verbatim>\<open>VertexSet\<close>
  holds references, \<^verbatim>\<open>vertices.copy()\<close> copies references, and \<^verbatim>\<open>vertex.color\<close> writes
  through whichever reference reached the object. So a vertex set is the list of
  references together with the store that holds the objects. Reference \<open>r\<close> is the
  object built by iteration \<open>r\<close> of the comprehension in \<^verbatim>\<open>VertexSet.__init__\<close>; no other
  \<^verbatim>\<open>Vertex\<close> is ever constructed.
\<close>

type_synonym ref = nat

record Vertex =
  v_color_string :: "string option"
  v_vertex_id :: int
  v_dimension :: int

record VertexSet =
  vs_dimension :: int
  vs_vertices :: "ref list"
  vs_heap :: "ref \<Rightarrow> Vertex"

definition Vertex_init :: "int \<Rightarrow> int \<Rightarrow> Vertex" where
  "Vertex_init vertex_id dimension =
     \<lparr>v_color_string = None, v_vertex_id = vertex_id, v_dimension = dimension\<rparr>"

text \<open>\<^verbatim>\<open>Vertex.color\<close>, on the object behind a reference.\<close>

definition Vertex_color :: "ref \<Rightarrow> string option \<Rightarrow> (ref \<Rightarrow> Vertex) \<Rightarrow> (ref \<Rightarrow> Vertex)" where
  "Vertex_color self color_string heap = heap(self := (heap self)\<lparr>v_color_string := color_string\<rparr>)"

definition VertexSet_init :: "int \<Rightarrow> VertexSet" where
  "VertexSet_init dimension =
     (let number_of_vertices = how_many_bit_strings dimension
      in \<lparr>vs_dimension = dimension,
          vs_vertices = map nat (py_range number_of_vertices),
          vs_heap = (\<lambda>i. Vertex_init (int i) dimension)\<rparr>)"

definition lookup_vertex_by_location :: "VertexSet \<Rightarrow> int \<Rightarrow> ref option" where
  "lookup_vertex_by_location self location =
     (case py_getitem (vs_vertices self) location of
        Inl e \<Rightarrow> None
      | Inr vertex \<Rightarrow> Some vertex)"

definition lookup_id_by_location :: "VertexSet \<Rightarrow> int \<Rightarrow> int option" where
  "lookup_id_by_location self location =
     (case lookup_vertex_by_location self location of
        None \<Rightarrow> None
      | Some vertex \<Rightarrow> Some (v_vertex_id (vs_heap self vertex)))"

text \<open>The first location of \<^verbatim>\<open>enumerate(self.vertices)\<close> whose vertex carries the id.\<close>

definition lookup_location_by_id :: "VertexSet \<Rightarrow> int \<Rightarrow> nat option" where
  "lookup_location_by_id self vertex_id =
     map_option fst
       (find (\<lambda>(location, vertex). vertex_id = v_vertex_id (vs_heap self vertex))
          (enumerate 0 (vs_vertices self)))"

text \<open>The subscript is a location that \<^verbatim>\<open>enumerate\<close> has just produced, so it is in range.\<close>

definition lookup_vertex_by_id :: "VertexSet \<Rightarrow> int \<Rightarrow> ref option" where
  "lookup_vertex_by_id self vertex_id =
     (case lookup_location_by_id self vertex_id of
        None \<Rightarrow> None
      | Some location \<Rightarrow> Some (vs_vertices self ! location))"

text \<open>
  A method that mutates its object and may raise returns the exception, if any, and the
  object as the call left it: Python does not undo the writes made before a raise.
\<close>

definition color_by_id :: "VertexSet \<Rightarrow> int \<Rightarrow> string option \<Rightarrow> error option \<times> VertexSet" where
  "color_by_id self vertex_id color_string =
     (case lookup_vertex_by_id self vertex_id of
        None \<Rightarrow> (Some (ValueError VertexDoesNotExist), self)
      | Some vertex \<Rightarrow>
          (None, self\<lparr>vs_heap := Vertex_color vertex color_string (vs_heap self)\<rparr>))"

definition uncolor_by_id :: "VertexSet \<Rightarrow> int \<Rightarrow> error option \<times> VertexSet" where
  "uncolor_by_id self vertex_id = color_by_id self vertex_id (Some [])"

text \<open>
  When no vertex is at \<^verbatim>\<open>location\<close> the id handed to \<^verbatim>\<open>color_by_id\<close> is \<^verbatim>\<open>None\<close>, which
  equals no vertex id, so \<^verbatim>\<open>color_by_id\<close> raises.
\<close>

definition color_by_location :: "VertexSet \<Rightarrow> int \<Rightarrow> string option \<Rightarrow> error option \<times> VertexSet" where
  "color_by_location self location color_string =
     (case lookup_id_by_location self location of
        None \<Rightarrow> (Some (ValueError VertexDoesNotExist), self)
      | Some vertex_id \<Rightarrow> color_by_id self vertex_id color_string)"

fun color_vertices_by_id_list ::
  "VertexSet \<Rightarrow> int list \<Rightarrow> string option \<Rightarrow> error option \<times> VertexSet" where
  "color_vertices_by_id_list self [] color_string = (None, self)"
| "color_vertices_by_id_list self (vertex_id # vertex_ids) color_string =
     (case color_by_id self vertex_id color_string of
        (Some e, self') \<Rightarrow> (Some e, self')
      | (None, self') \<Rightarrow> color_vertices_by_id_list self' vertex_ids color_string)"

definition uncolor_vertices_by_id_list :: "VertexSet \<Rightarrow> int list \<Rightarrow> error option \<times> VertexSet" where
  "uncolor_vertices_by_id_list self vertex_ids =
     color_vertices_by_id_list self vertex_ids (Some [])"

text \<open>
  The loop of \<^verbatim>\<open>map_to_locations\<close> over \<^verbatim>\<open>enumerate(vertices)\<close>, \<^verbatim>\<open>vertices\<close> being the
  copy; the last argument is \<^verbatim>\<open>self.vertices\<close> as written so far.
\<close>

fun map_to_locations_loop ::
  "(int \<Rightarrow> error + int) \<Rightarrow> (nat \<times> ref) list \<Rightarrow> ref list \<Rightarrow> error option \<times> ref list" where
  "map_to_locations_loop function [] current = (None, current)"
| "map_to_locations_loop function ((location, vertex) # rest) current =
     (case function (int location) of
        Inl e \<Rightarrow> (Some e, current)
      | Inr new_location \<Rightarrow>
          (case py_setitem current new_location vertex of
             Inl e \<Rightarrow> (Some e, current)
           | Inr current' \<Rightarrow> map_to_locations_loop function rest current'))"

definition map_to_locations ::
  "VertexSet \<Rightarrow> (int \<Rightarrow> error + int) \<Rightarrow> error option \<times> VertexSet" where
  "map_to_locations self function =
     (let vertices = vs_vertices self
      in case map_to_locations_loop function (enumerate 0 vertices) (vs_vertices self) of
           (raised, current) \<Rightarrow> (raised, self\<lparr>vs_vertices := current\<rparr>))"

text \<open>
  The first loop of \<^verbatim>\<open>map_to_locations_not_colors\<close>; \<^verbatim>\<open>color_mapping\<close> is a dict whose
  keys are the distinct locations, in the order of insertion.
\<close>

fun move_and_record_colors ::
  "(ref \<Rightarrow> Vertex) \<Rightarrow> (int \<Rightarrow> error + int) \<Rightarrow> (nat \<times> ref) list \<Rightarrow>
     (int \<times> string option) list \<Rightarrow> ref list \<Rightarrow>
     error option \<times> (int \<times> string option) list \<times> ref list" where
  "move_and_record_colors heap function [] color_mapping current =
     (None, color_mapping, current)"
| "move_and_record_colors heap function ((location, vertex) # rest) color_mapping current =
     (case function (int location) of
        Inl e \<Rightarrow> (Some e, color_mapping, current)
      | Inr new_location \<Rightarrow>
          (let color_mapping' =
                 AList.update (int location) (v_color_string (heap vertex)) color_mapping
           in case py_setitem current new_location vertex of
                Inl e \<Rightarrow> (Some e, color_mapping', current)
              | Inr current' \<Rightarrow>
                  move_and_record_colors heap function rest color_mapping' current'))"

text \<open>The second loop, over \<^verbatim>\<open>color_mapping.items()\<close>.\<close>

fun recolor_locations ::
  "VertexSet \<Rightarrow> (int \<times> string option) list \<Rightarrow> error option \<times> VertexSet" where
  "recolor_locations self [] = (None, self)"
| "recolor_locations self ((location, color_string) # rest) =
     (case color_by_location self location color_string of
        (Some e, self') \<Rightarrow> (Some e, self')
      | (None, self') \<Rightarrow> recolor_locations self' rest)"

definition map_to_locations_not_colors ::
  "VertexSet \<Rightarrow> (int \<Rightarrow> error + int) \<Rightarrow> error option \<times> VertexSet" where
  "map_to_locations_not_colors self function =
     (let vertices = vs_vertices self
      in case move_and_record_colors (vs_heap self) function (enumerate 0 vertices) []
                (vs_vertices self) of
           (Some e, color_mapping, current) \<Rightarrow> (Some e, self\<lparr>vs_vertices := current\<rparr>)
         | (None, color_mapping, current) \<Rightarrow>
             recolor_locations (self\<lparr>vs_vertices := current\<rparr>) color_mapping)"

text \<open>
  \<^verbatim>\<open>VertexSet.rotate\<close>; the plain name is taken by a function on lists.
\<close>

definition VertexSet_rotate :: "VertexSet \<Rightarrow> int list \<Rightarrow> bool \<Rightarrow> error option \<times> VertexSet" where
  "VertexSet_rotate self rotation_list preserve_colors =
     (let permute_bits =
            (\<lambda>location. permute_bits_by_index_list location rotation_list (vs_dimension self))
      in if preserve_colors then map_to_locations_not_colors self permute_bits
         else map_to_locations self permute_bits)"

definition reflect :: "VertexSet \<Rightarrow> int \<Rightarrow> bool \<Rightarrow> error option \<times> VertexSet" where
  "reflect self bit_mask preserve_colors =
     (case truncate_within_dimension bit_mask (vs_dimension self) of
        Inl e \<Rightarrow> (Some e, self)
      | Inr bit_mask' \<Rightarrow>
          (let flip_function = (\<lambda>location. Inr (location XOR bit_mask'))
           in if preserve_colors then map_to_locations_not_colors self flip_function
              else map_to_locations self flip_function))"

fun reset_positions_loop ::
  "(ref \<Rightarrow> Vertex) \<Rightarrow> ref list \<Rightarrow> ref list \<Rightarrow> error option \<times> ref list" where
  "reset_positions_loop heap [] current = (None, current)"
| "reset_positions_loop heap (vertex # rest) current =
     (case py_setitem current (v_vertex_id (heap vertex)) vertex of
        Inl e \<Rightarrow> (Some e, current)
      | Inr current' \<Rightarrow> reset_positions_loop heap rest current')"

definition reset_positions :: "VertexSet \<Rightarrow> error option \<times> VertexSet" where
  "reset_positions self =
     (let vertices = vs_vertices self
      in case reset_positions_loop (vs_heap self) vertices (vs_vertices self) of
           (raised, current) \<Rightarrow> (raised, self\<lparr>vs_vertices := current\<rparr>))"

section \<open>cubes.py: edges\<close>

text \<open>
  \<^verbatim>\<open>self.edges\<close> is a dict from id pairs to color strings; the association list keeps
  Python's insertion order, and \<open>AList.update\<close> is \<^verbatim>\<open>self.edges[key] = v\<close> (replace in
  place, or append). \<^verbatim>\<open>self.vertex_set\<close> is a reference to the vertex set of the same
  cube, so the methods that read it take the current vertex set as an argument.
\<close>

record EdgeSet =
  es_dimension :: int
  es_edges :: "((int \<times> int) \<times> string) list"

text \<open>\<^verbatim>\<open>key in self.edges\<close>.\<close>

definition in_edges :: "int \<times> int \<Rightarrow> ((int \<times> int) \<times> string) list \<Rightarrow> bool" where
  "in_edges key edges \<longleftrightarrow> map_of edges key \<noteq> None"

fun EdgeSet_init_inner ::
  "int \<Rightarrow> int list \<Rightarrow> ((int \<times> int) \<times> string) list \<Rightarrow> error + ((int \<times> int) \<times> string) list" where
  "EdgeSet_init_inner low_index [] edges = Inr edges"
| "EdgeSet_init_inner low_index (high_index # rest) edges =
     (case weight (low_index XOR high_index) of
        Inl e \<Rightarrow> Inl e
      | Inr w \<Rightarrow>
          EdgeSet_init_inner low_index rest
            (if w = 1 then AList.update (low_index, high_index) [] edges else edges))"

fun EdgeSet_init_outer ::
  "int \<Rightarrow> int list \<Rightarrow> ((int \<times> int) \<times> string) list \<Rightarrow> error + ((int \<times> int) \<times> string) list" where
  "EdgeSet_init_outer number_of_vertices [] edges = Inr edges"
| "EdgeSet_init_outer number_of_vertices (low_index # rest) edges =
     (case EdgeSet_init_inner low_index (py_range_from low_index number_of_vertices) edges of
        Inl e \<Rightarrow> Inl e
      | Inr edges' \<Rightarrow> EdgeSet_init_outer number_of_vertices rest edges')"

definition EdgeSet_init :: "VertexSet \<Rightarrow> error + EdgeSet" where
  "EdgeSet_init vertex_set =
     (let dimension = vs_dimension vertex_set;
          number_of_vertices = how_many_bit_strings dimension
      in case EdgeSet_init_outer number_of_vertices (py_range number_of_vertices) [] of
           Inl e \<Rightarrow> Inl e
         | Inr edges \<Rightarrow> Inr \<lparr>es_dimension = dimension, es_edges = edges\<rparr>)"

text \<open>A location without a vertex gives the id \<^verbatim>\<open>None\<close>, and no key holds \<^verbatim>\<open>None\<close>.\<close>

definition lookup_edge_id_by_locations ::
  "EdgeSet \<Rightarrow> VertexSet \<Rightarrow> int \<Rightarrow> int \<Rightarrow> (int \<times> int) option" where
  "lookup_edge_id_by_locations self vertex_set u_location v_location =
     (case (lookup_id_by_location vertex_set u_location,
            lookup_id_by_location vertex_set v_location) of
        (Some u_id, Some v_id) \<Rightarrow>
          if in_edges (u_id, v_id) (es_edges self) then Some (u_id, v_id)
          else if in_edges (v_id, u_id) (es_edges self) then Some (v_id, u_id)
          else None
      | _ \<Rightarrow> None)"

definition color_by_ids :: "EdgeSet \<Rightarrow> int \<Rightarrow> int \<Rightarrow> string \<Rightarrow> error option \<times> EdgeSet" where
  "color_by_ids self u_id v_id color_string =
     (if in_edges (u_id, v_id) (es_edges self)
        then (None, self\<lparr>es_edges := AList.update (u_id, v_id) color_string (es_edges self)\<rparr>)
      else if in_edges (v_id, u_id) (es_edges self)
        then (None, self\<lparr>es_edges := AList.update (v_id, u_id) color_string (es_edges self)\<rparr>)
      else (Some (ValueError NoEdgeBetween), self))"

definition uncolor_by_ids :: "EdgeSet \<Rightarrow> int \<Rightarrow> int \<Rightarrow> error option \<times> EdgeSet" where
  "uncolor_by_ids self u_id v_id = color_by_ids self u_id v_id []"

definition color_by_locations ::
  "EdgeSet \<Rightarrow> VertexSet \<Rightarrow> int \<Rightarrow> int \<Rightarrow> string \<Rightarrow> error option \<times> EdgeSet" where
  "color_by_locations self vertex_set u_location v_location color_string =
     (case lookup_edge_id_by_locations self vertex_set u_location v_location of
        None \<Rightarrow> (Some (ValueError IsNotAnEdge), self)
      | Some (id_1, id_2) \<Rightarrow> color_by_ids self id_1 id_2 color_string)"

definition uncolor_by_locations ::
  "EdgeSet \<Rightarrow> VertexSet \<Rightarrow> int \<Rightarrow> int \<Rightarrow> error option \<times> EdgeSet" where
  "uncolor_by_locations self vertex_set u_location v_location =
     color_by_locations self vertex_set u_location v_location []"

text \<open>
  The two nested loops over \<^verbatim>\<open>range(length)\<close> and \<^verbatim>\<open>range(i, length)\<close>; both subscripts
  are below \<^verbatim>\<open>length\<close>.
\<close>

definition get_induced_edges_from_id_list :: "EdgeSet \<Rightarrow> int list \<Rightarrow> (int \<times> int) list" where
  "get_induced_edges_from_id_list self vertex_id_list =
     (let length_of_list = length vertex_id_list
      in concat (map (\<lambda>i.
           concat (map (\<lambda>j.
             (let edge = (vertex_id_list ! i, vertex_id_list ! j)
              in if in_edges edge (es_edges self) then [edge] else []))
             [i..<length_of_list]))
           [0..<length_of_list]))"

fun color_edges_loop :: "EdgeSet \<Rightarrow> (int \<times> int) list \<Rightarrow> string \<Rightarrow> error option \<times> EdgeSet" where
  "color_edges_loop self [] color_string = (None, self)"
| "color_edges_loop self ((low_index, high_index) # rest) color_string =
     (case color_by_ids self low_index high_index color_string of
        (Some e, self') \<Rightarrow> (Some e, self')
      | (None, self') \<Rightarrow> color_edges_loop self' rest color_string)"

definition color_edges_by_id_list :: "EdgeSet \<Rightarrow> int list \<Rightarrow> string \<Rightarrow> error option \<times> EdgeSet" where
  "color_edges_by_id_list self vertex_id_list color_string =
     (let induced_edges = get_induced_edges_from_id_list self vertex_id_list
      in color_edges_loop self induced_edges color_string)"

definition uncolor_edges_by_id_list :: "EdgeSet \<Rightarrow> int list \<Rightarrow> error option \<times> EdgeSet" where
  "uncolor_edges_by_id_list self vertex_id_list = color_edges_by_id_list self vertex_id_list []"

definition lookup_color_by_vertex_ids :: "EdgeSet \<Rightarrow> int \<Rightarrow> int \<Rightarrow> string option" where
  "lookup_color_by_vertex_ids self u_id v_id =
     (if in_edges (u_id, v_id) (es_edges self) then map_of (es_edges self) (u_id, v_id)
      else if in_edges (v_id, u_id) (es_edges self) then map_of (es_edges self) (v_id, u_id)
      else None)"

section \<open>cubes.py: the cube\<close>

text \<open>
  \<^verbatim>\<open>Cube.show\<close> and \<^verbatim>\<open>Vertex.to_string\<close> render text and change nothing;
  \<^verbatim>\<open>VertexSet.apply_to_all_vertices\<close> has no caller, and calls \<^verbatim>\<open>items()\<close> on a list,
  so that it raises before it reaches a vertex. They are left out.
\<close>

record Cube =
  cube_dimension :: int
  cube_vertex_set :: VertexSet
  cube_edge_set :: EdgeSet

definition Cube_init :: "int \<Rightarrow> error + Cube" where
  "Cube_init dimension =
     (let vertex_set = VertexSet_init dimension
      in case EdgeSet_init vertex_set of
           Inl e \<Rightarrow> Inl e
         | Inr edge_set \<Rightarrow>
             Inr \<lparr>cube_dimension = dimension, cube_vertex_set = vertex_set,
                  cube_edge_set = edge_set\<rparr>)"

definition Cube_rotate :: "Cube \<Rightarrow> int list \<Rightarrow> bool \<Rightarrow> error option \<times> Cube" where
  "Cube_rotate self rotation_list preserve_colors =
     (case VertexSet_rotate (cube_vertex_set self) rotation_list preserve_colors of
        (raised, vertex_set) \<Rightarrow> (raised, self\<lparr>cube_vertex_set := vertex_set\<rparr>))"

definition Cube_reflect :: "Cube \<Rightarrow> int \<Rightarrow> bool \<Rightarrow> error option \<times> Cube" where
  "Cube_reflect self bit_mask preserve_colors =
     (case reflect (cube_vertex_set self) bit_mask preserve_colors of
        (raised, vertex_set) \<Rightarrow> (raised, self\<lparr>cube_vertex_set := vertex_set\<rparr>))"

definition Cube_reset_positions :: "Cube \<Rightarrow> error option \<times> Cube" where
  "Cube_reset_positions self =
     (case reset_positions (cube_vertex_set self) of
        (raised, vertex_set) \<Rightarrow> (raised, self\<lparr>cube_vertex_set := vertex_set\<rparr>))"

definition Cube_color_vertices_by_id_list ::
  "Cube \<Rightarrow> int list \<Rightarrow> string \<Rightarrow> error option \<times> Cube" where
  "Cube_color_vertices_by_id_list self vertex_id_list color_string =
     (case color_vertices_by_id_list (cube_vertex_set self) vertex_id_list (Some color_string) of
        (raised, vertex_set) \<Rightarrow> (raised, self\<lparr>cube_vertex_set := vertex_set\<rparr>))"

definition Cube_uncolor_vertices_by_id_list :: "Cube \<Rightarrow> int list \<Rightarrow> error option \<times> Cube" where
  "Cube_uncolor_vertices_by_id_list self vertex_id_list =
     (case uncolor_vertices_by_id_list (cube_vertex_set self) vertex_id_list of
        (raised, vertex_set) \<Rightarrow> (raised, self\<lparr>cube_vertex_set := vertex_set\<rparr>))"

definition Cube_color_edges_by_id_list ::
  "Cube \<Rightarrow> int list \<Rightarrow> string \<Rightarrow> error option \<times> Cube" where
  "Cube_color_edges_by_id_list self vertex_id_list color_string =
     (case color_edges_by_id_list (cube_edge_set self) vertex_id_list color_string of
        (raised, edge_set) \<Rightarrow> (raised, self\<lparr>cube_edge_set := edge_set\<rparr>))"

definition Cube_uncolor_edges_by_id_list :: "Cube \<Rightarrow> int list \<Rightarrow> error option \<times> Cube" where
  "Cube_uncolor_edges_by_id_list self vertex_id_list =
     (case uncolor_edges_by_id_list (cube_edge_set self) vertex_id_list of
        (raised, edge_set) \<Rightarrow> (raised, self\<lparr>cube_edge_set := edge_set\<rparr>))"

text \<open>
  The public operations of a cube as data, and a caller that issues them one after the
  other on the same cube, going on after an exception as the interactive loop does.
\<close>

datatype operation =
    Rotate "int list" bool
  | Reflect int bool
  | ResetPositions
  | ColorVertices "int list" string
  | UncolorVertices "int list"
  | ColorEdges "int list" string
  | UncolorEdges "int list"

fun apply_operation :: "Cube \<Rightarrow> operation \<Rightarrow> error option \<times> Cube" where
  "apply_operation cube (Rotate rotation_list preserve_colors) =
     Cube_rotate cube rotation_list preserve_colors"
| "apply_operation cube (Reflect bit_mask preserve_colors) =
     Cube_reflect cube bit_mask preserve_colors"
| "apply_operation cube ResetPositions = Cube_reset_positions cube"
| "apply_operation cube (ColorVertices vertex_id_list color_string) =
     Cube_color_vertices_by_id_list cube vertex_id_list color_string"
| "apply_operation cube (UncolorVertices vertex_id_list) =
     Cube_uncolor_vertices_by_id_list cube vertex_id_list"
| "apply_operation cube (ColorEdges vertex_id_list color_string) =
     Cube_color_edges_by_id_list cube vertex_id_list color_string"
| "apply_operation cube (UncolorEdges vertex_id_list) =
     Cube_uncolor_edges_by_id_list cube vertex_id_list"

fun apply_operations :: "Cube \<Rightarrow> operation list \<Rightarrow> Cube" where
  "apply_operations cube [] = cube"
| "apply_operations cube (operation # rest) =
     apply_operations (snd (apply_operation cube operation)) rest"

section \<open>Notions used in the statements\<close>

text \<open>
  A number agrees with a pattern of length \<open>d\<close> when, read as \<open>d\<close> bits with the most
  significant bit first, it has a set bit wherever the pattern says \<open>1\<close> and a clear
  bit wherever it says \<open>0\<close>; position \<open>i\<close> of the string is bit \<open>d - 1 - i\<close>.
\<close>

definition agrees_with_pattern :: "string \<Rightarrow> nat \<Rightarrow> int \<Rightarrow> bool" where
  "agrees_with_pattern pattern d number \<longleftrightarrow>
     (\<forall>i<d. (pattern ! i = CHR ''1'' \<longrightarrow> bit number (d - 1 - i)) \<and>
            (pattern ! i = CHR ''0'' \<longrightarrow> \<not> bit number (d - 1 - i)))"

definition bit_char :: "bool \<Rightarrow> char" where
  "bit_char b = (if b then CHR ''1'' else CHR ''0'')"

text \<open>The \<open>d\<close> lowest bits of a number as a string, most significant first.\<close>

definition big_endian_bits :: "nat \<Rightarrow> nat \<Rightarrow> string" where
  "big_endian_bits d n = map (\<lambda>i. bit_char (bit n (d - 1 - i))) [0..<d]"

text \<open>
  The edges of the hypercube of dimension \<open>d\<close> as the constructor of \<^verbatim>\<open>EdgeSet\<close>
  describes them: id pairs with the lower id first, inside \<open>[0, 2^d)\<close>, whose XOR has
  weight 1.
\<close>

definition hypercube_edges :: "nat \<Rightarrow> (int \<times> int) set" where
  "hypercube_edges d = {(u, v). 0 \<le> u \<and> u \<le> v \<and> v < 2 ^ d \<and> weight (u XOR v) = Inr 1}"

text \<open>
  The effect of a run of subscript assignments \<^verbatim>\<open>xs[target] = item\<close>, all in range, in
  the order of the list.
\<close>

definition place_all :: "(nat \<times> 'a) list \<Rightarrow> 'a list \<Rightarrow> 'a list" where
  "place_all assignments current = fold (\<lambda>(target, item) xs. xs[target := item]) assignments current"

text \<open>The number a string of bits denotes, as the loop of \<^verbatim>\<open>bit_string_to_int\<close> computes it.\<close>

definition bits_value :: "string \<Rightarrow> int" where
  "bits_value bits = foldl (\<lambda>result bit. push_bit 1 result + int_of_bit bit) 0 bits"

text \<open>
  Where \<^verbatim>\<open>permute_bits_by_index_list\<close> sends a number of \<open>d\<close> bits: output position \<open>j\<close>
  takes the bit at input position \<open>indices[j]\<close>.
\<close>

definition permuted_number :: "nat \<Rightarrow> int list \<Rightarrow> nat \<Rightarrow> nat" where
  "permuted_number d indices n =
     nat (bits_value (map (\<lambda>i. big_endian_bits d n ! nat i) indices))"

text \<open>The ids of the vertices, location by location.\<close>

definition location_ids :: "VertexSet \<Rightarrow> int list" where
  "location_ids self = map (\<lambda>vertex. v_vertex_id (vs_heap self vertex)) (vs_vertices self)"

text \<open>
  The bijection invariant of a vertex set of dimension \<open>d \<ge> 0\<close>: there are \<open>2^d\<close>
  locations, and the ids found at them are exactly the numbers of \<open>[0, 2^d)\<close>. With
  as many locations as ids, no id can then be at two locations.
\<close>

definition vertex_set_invariant :: "VertexSet \<Rightarrow> bool" where
  "vertex_set_invariant self \<longleftrightarrow>
     0 \<le> vs_dimension self \<and>
     length (vs_vertices self) = 2 ^ nat (vs_dimension self) \<and>
     set (location_ids self) = {0..<2 ^ nat (vs_dimension self)}"

text \<open>Two vertex sets with the same dimension, arrangement and ids; colors may differ.\<close>

definition same_arrangement :: "VertexSet \<Rightarrow> VertexSet \<Rightarrow> bool" where
  "same_arrangement a b \<longleftrightarrow>
     vs_dimension a = vs_dimension b \<and> vs_vertices a = vs_vertices b \<and>
     (\<forall>vertex. v_vertex_id (vs_heap a vertex) = v_vertex_id (vs_heap b vertex))"

text \<open>
  The vertex set \<open>after\<close> holds at location \<open>target i\<close> the vertex that \<open>before\<close> holds at
  location \<open>i\<close>; dimension and ids are those of \<open>before\<close>.
\<close>

definition moved_by :: "(nat \<Rightarrow> nat) \<Rightarrow> VertexSet \<Rightarrow> VertexSet \<Rightarrow> bool" where
  "moved_by target before after \<longleftrightarrow>
     vs_dimension after = vs_dimension before \<and>
     (\<forall>vertex. v_vertex_id (vs_heap after vertex) = v_vertex_id (vs_heap before vertex)) \<and>
     length (vs_vertices after) = length (vs_vertices before) \<and>
     (\<forall>i<length (vs_vertices before). vs_vertices after ! target i = vs_vertices before ! i)"

text \<open>A cube whose vertex set has the cube's dimension and satisfies the invariant.\<close>

definition cube_invariant :: "Cube \<Rightarrow> bool" where
  "cube_invariant cube \<longleftrightarrow>
     vs_dimension (cube_vertex_set cube) = cube_dimension cube \<and>
     vertex_set_invariant (cube_vertex_set cube)"

section \<open>Patterns\<close>

lemma big_endian_bits_Suc:
  "big_endian_bits (Suc d) n = big_endian_bits d (n div 2) @ [bit_char (odd n)]"
proof -
  have "\<And>i. i < d \<Longrightarrow> bit n (d - i) = bit (n div 2) (d - 1 - i)"
  proof -
    fix i assume "i < d"
    then have "d - i = Suc (d - 1 - i)" by simp
    then show "bit n (d - i) = bit (n div 2) (d - 1 - i)" by (simp add: bit_Suc)
  qed
  then show ?thesis by (simp add: big_endian_bits_def bit_0)
qed

lemma big_endian_bits_small:
  "n < 2 \<Longrightarrow> big_endian_bits (Suc d) n = replicate d (CHR ''0'') @ [bit_char (n = 1)]"
proof (induction d)
  case 0
  then have "n = 0 \<or> n = 1" by arith
  then show ?case by (auto simp: big_endian_bits_def bit_char_def bit_0)
next
  case (Suc d)
  from Suc.prems have half: "n div 2 = 0" by simp
  have zeros: "big_endian_bits (Suc d) 0 = replicate (Suc d) (CHR ''0'')"
    by (simp add: big_endian_bits_def bit_char_def map_replicate_const del: replicate_Suc upt_Suc)
  from Suc.prems have "n = 0 \<or> n = 1" by arith
  then have "odd n \<longleftrightarrow> n = 1" by auto
  with half zeros show ?case
    by (simp add: big_endian_bits_Suc [of "Suc d"] replicate_append_same)
qed

lemma binary_digits_padded:
  "n < 2 ^ d \<Longrightarrow> 1 \<le> d \<Longrightarrow>
     replicate (d - length (binary_digits n)) (CHR ''0'') @ binary_digits n = big_endian_bits d n"
proof (induction n arbitrary: d rule: binary_digits.induct)
  case (1 n)
  from "1.prems" obtain d' where d: "d = Suc d'" by (cases d) auto
  show ?case
  proof (cases "n < 2")
    case True
    then show ?thesis
      by (subst (1 2) binary_digits.simps) (simp add: d big_endian_bits_small bit_char_def)
  next
    case False
    with "1.prems" d have "1 \<le> d'" by (cases d') auto
    moreover from "1.prems" d have "n div 2 < 2 ^ d'" by auto
    ultimately have ih: "replicate (d' - length (binary_digits (n div 2))) (CHR ''0'') @
        binary_digits (n div 2) = big_endian_bits d' (n div 2)"
      using "1.IH" [of d'] False by simp
    have "(n mod 2 = 1) = odd n" by presburger
    with False ih show ?thesis
      by (subst (1 2) binary_digits.simps) (simp add: d big_endian_bits_Suc bit_char_def)
  qed
qed

lemma int_to_bit_string_big_endian:
  assumes "1 \<le> d" and "0 \<le> number" and "number < 2 ^ d"
  shows "int_to_bit_string number (int d) = Inr (big_endian_bits d (nat number))"
proof -
  from assms have "nat number < 2 ^ d"
    by (metis nat_less_iff of_nat_numeral of_nat_power)
  from binary_digits_padded [OF this assms(1)] assms show ?thesis
    by (simp add: int_to_bit_string_def format_zero_padded_binary_def Let_def)
qed

lemma py_range_int: "py_range (int n) = map int [0..<n]"
proof (induction n)
  case 0
  show ?case by (simp add: py_range_def)
next
  case (Suc n)
  have "[0..int (Suc n) - 1] = [0..int n - 1] @ [int n]"
    using upto_rec2 [of 0 "int n"] by simp
  with Suc show ?case by (simp add: py_range_def)
qed

lemma py_getitem_nth: "i < length xs \<Longrightarrow> py_getitem xs (int i) = Inr (xs ! i)"
  by (simp add: py_getitem_def py_index_def)

lemma matches_loop_in_range:
  assumes "\<forall>i \<in> set is. i < length pattern \<and> i < length number_as_string"
  shows "matches_loop pattern number_as_string (map int is) =
     Inr (\<forall>i \<in> set is. pattern ! i = CHR ''*'' \<or> pattern ! i = number_as_string ! i)"
  using assms by (induction "is") (auto simp: py_getitem_nth)

lemma py_filter_total:
  assumes "\<forall>x \<in> set xs. f x = Inr (g x)"
  shows "py_filter f xs = Inr (filter g xs)"
  using assms by (induction xs) auto

lemma length_big_endian_bits [simp]: "length (big_endian_bits d n) = d"
  by (simp add: big_endian_bits_def)

lemma nth_big_endian_bits:
  "i < d \<Longrightarrow> big_endian_bits d n ! i = bit_char (bit n (d - 1 - i))"
  by (simp add: big_endian_bits_def)

lemma matches_agrees:
  assumes d: "1 \<le> d" and len: "length pattern = d"
    and alphabet: "WILDCARD_STRING_PATTERN pattern"
    and range: "0 \<le> number" "number < 2 ^ d"
  shows "matches pattern (int d) number = Inr (agrees_with_pattern pattern d number)"
proof -
  have chars: "\<And>i. i < d \<Longrightarrow>
      pattern ! i = CHR ''0'' \<or> pattern ! i = CHR ''1'' \<or> pattern ! i = CHR ''*''"
    using alphabet len by (auto simp: WILDCARD_STRING_PATTERN_def list_all_length)
  have bits: "\<And>k. bit (nat number) k = bit number k"
    using range(1) by (simp add: bit_nat_iff)
  have "matches pattern (int d) number =
      Inr (\<forall>i \<in> set [0..<d]. pattern ! i = CHR ''*'' \<or>
             pattern ! i = big_endian_bits d (nat number) ! i)"
    using int_to_bit_string_big_endian [OF d range] len
    by (simp add: matches_def py_range_int matches_loop_in_range)
  also have "(\<forall>i \<in> set [0..<d]. pattern ! i = CHR ''*'' \<or>
             pattern ! i = big_endian_bits d (nat number) ! i) =
      agrees_with_pattern pattern d number"
    unfolding agrees_with_pattern_def
  proof (intro iffI allI impI ballI)
    fix i assume "\<forall>i \<in> set [0..<d]. pattern ! i = CHR ''*'' \<or>
             pattern ! i = big_endian_bits d (nat number) ! i" and "i < d"
    then have "pattern ! i = CHR ''*'' \<or> pattern ! i = big_endian_bits d (nat number) ! i"
      and "i < d" by simp_all
    then show "(pattern ! i = CHR ''1'' \<longrightarrow> bit number (d - 1 - i)) \<and>
       (pattern ! i = CHR ''0'' \<longrightarrow> \<not> bit number (d - 1 - i))"
      by (auto simp: nth_big_endian_bits bits bit_char_def split: if_splits)
  next
    fix i assume "\<forall>i<d. (pattern ! i = CHR ''1'' \<longrightarrow> bit number (d - 1 - i)) \<and>
       (pattern ! i = CHR ''0'' \<longrightarrow> \<not> bit number (d - 1 - i))" and "i \<in> set [0..<d]"
    then have "(pattern ! i = CHR ''1'' \<longrightarrow> bit number (d - 1 - i)) \<and>
       (pattern ! i = CHR ''0'' \<longrightarrow> \<not> bit number (d - 1 - i))" and "i < d" by simp_all
    with chars [of i] show "pattern ! i = CHR ''*'' \<or>
       pattern ! i = big_endian_bits d (nat number) ! i"
      by (auto simp: nth_big_endian_bits bits bit_char_def)
  qed
  finally show ?thesis .
qed

lemma pattern_to_int_list_filter:
  assumes d: "1 \<le> d" and len: "length pattern = d"
    and alphabet: "WILDCARD_STRING_PATTERN pattern"
  shows "pattern_to_int_list pattern (int d) =
     Inr (filter (agrees_with_pattern pattern d) [0..2 ^ d - 1])"
proof -
  have "\<forall>number \<in> set (py_range (2 ^ d)).
      matches pattern (int d) number = Inr (agrees_with_pattern pattern d number)"
    using matches_agrees [OF d len alphabet] by (simp add: py_range_def)
  from py_filter_total [OF this] alphabet len show ?thesis
    by (simp add: pattern_to_int_list_def py_range_def)
qed

lemma WILDCARD_STRING_PATTERN_iff:
  "WILDCARD_STRING_PATTERN pattern \<longleftrightarrow>
     pattern \<noteq> [] \<and> set pattern \<subseteq> {CHR ''0'', CHR ''1'', CHR ''*''}"
  by (auto simp: WILDCARD_STRING_PATTERN_def list_all_iff)

text \<open>
  Claim C7, amended to dimensions \<open>d \<ge> 1\<close>. For such a dimension, a pattern of length
  \<open>d\<close> over \<open>0\<close>, \<open>1\<close>, \<open>*\<close> makes \<^verbatim>\<open>pattern_to_int_list\<close> return a list whose
  elements are exactly the numbers of \<open>[0, 2^d)\<close> that agree with the pattern; the
  function raises exactly when a character is outside the alphabet or the length is not
  \<open>d\<close>, and then with one of its two \<^verbatim>\<open>ValueError\<close>s; and the pattern \<open>1**\<close> of
  dimension 3 gives 4, 5, 6, 7. At dimension 0 every pattern is rejected, the empty one
  by the alphabet test and every other one by one of the two tests.
\<close>

theorem pattern_to_int_list_matches_exactly:
  assumes "1 \<le> dimension"
  shows "(int (length pattern) = dimension \<and> set pattern \<subseteq> {CHR ''0'', CHR ''1'', CHR ''*''} \<longrightarrow>
            (\<exists>numbers. pattern_to_int_list pattern dimension = Inr numbers \<and>
               set numbers = {number. 0 \<le> number \<and> number < 2 ^ nat dimension \<and>
                                agrees_with_pattern pattern (nat dimension) number})) \<and>
         ((\<exists>e. pattern_to_int_list pattern dimension = Inl e) \<longleftrightarrow>
            \<not> set pattern \<subseteq> {CHR ''0'', CHR ''1'', CHR ''*''} \<or> int (length pattern) \<noteq> dimension) \<and>
         (\<forall>e. pattern_to_int_list pattern dimension = Inl e \<longrightarrow>
            e = ValueError PatternNotOverAlphabet \<or> e = ValueError PatternWrongLength) \<and>
         pattern_to_int_list ''1**'' 3 = Inr [4, 5, 6, 7] \<and>
         (pattern_to_int_list pattern 0 = Inl (ValueError PatternNotOverAlphabet) \<or>
          pattern_to_int_list pattern 0 = Inl (ValueError PatternWrongLength)) \<and>
         (\<exists>e. pattern_to_int_list pattern 0 = Inl e)"
proof -
  define d where "d = nat dimension"
  with assms have d: "1 \<le> d" "dimension = int d" by simp_all
  have good: "pattern_to_int_list pattern dimension =
      Inr (filter (agrees_with_pattern pattern d) [0..2 ^ d - 1])"
    if "int (length pattern) = dimension" "set pattern \<subseteq> {CHR ''0'', CHR ''1'', CHR ''*''}"
  proof -
    from that d have "length pattern = d" "pattern \<noteq> []" by auto
    with that(2) pattern_to_int_list_filter [OF d(1), of pattern] d(2) show ?thesis
      by (simp add: WILDCARD_STRING_PATTERN_iff)
  qed
  have bad: "pattern_to_int_list pattern dimension = Inl (ValueError PatternNotOverAlphabet) \<or>
      pattern_to_int_list pattern dimension = Inl (ValueError PatternWrongLength)"
    if "\<not> set pattern \<subseteq> {CHR ''0'', CHR ''1'', CHR ''*''} \<or> int (length pattern) \<noteq> dimension"
    using that by (auto simp: pattern_to_int_list_def WILDCARD_STRING_PATTERN_iff)
  have first: "int (length pattern) = dimension \<and> set pattern \<subseteq> {CHR ''0'', CHR ''1'', CHR ''*''} \<longrightarrow>
            (\<exists>numbers. pattern_to_int_list pattern dimension = Inr numbers \<and>
               set numbers = {number. 0 \<le> number \<and> number < 2 ^ nat dimension \<and>
                                agrees_with_pattern pattern (nat dimension) number})"
    using good by (auto simp: d_def)
  have second: "(\<exists>e. pattern_to_int_list pattern dimension = Inl e) \<longleftrightarrow>
            \<not> set pattern \<subseteq> {CHR ''0'', CHR ''1'', CHR ''*''} \<or> int (length pattern) \<noteq> dimension"
    using good bad by (metis Inl_Inr_False)
  have third: "\<forall>e. pattern_to_int_list pattern dimension = Inl e \<longrightarrow>
            e = ValueError PatternNotOverAlphabet \<or> e = ValueError PatternWrongLength"
    using good bad by (metis Inl_Inr_False sum.inject(1))
  have fourth: "pattern_to_int_list ''1**'' 3 = Inr [4, 5, 6, 7]"
    by code_simp
  have fifth: "pattern_to_int_list pattern 0 = Inl (ValueError PatternNotOverAlphabet) \<or>
      pattern_to_int_list pattern 0 = Inl (ValueError PatternWrongLength)"
    by (cases pattern) (auto simp: pattern_to_int_list_def WILDCARD_STRING_PATTERN_def)
  then have sixth: "\<exists>e. pattern_to_int_list pattern 0 = Inl e" by blast
  from first second third fourth fifth sixth show ?thesis by blast
qed

theorem pattern_to_int_list_matches_exactly_witness:
  "pattern_to_int_list ''*0'' 2 = Inr [0, 2] \<and>
   set [0, 2 :: int] = {number. 0 \<le> number \<and> number < 2 ^ nat 2 \<and> agrees_with_pattern ''*0'' (nat 2) number} \<and>
   (\<exists>e. pattern_to_int_list ''1*2'' 3 = Inl e) \<and>
   (\<exists>e. pattern_to_int_list ''*0'' 0 = Inl e)"
proof -
  have run: "pattern_to_int_list ''*0'' 2 = Inr [0, 2]"
    by code_simp
  have "(1::int) \<le> 2" "(1::int) \<le> 3" by simp_all
  from pattern_to_int_list_matches_exactly [OF this(1), of "''*0''"]
    pattern_to_int_list_matches_exactly [OF this(2), of "''1*2''"] run
  show ?thesis by simp
qed

text \<open>
  Claim C7 as stated includes dimension 0. There the only pattern of length 0 is the
  empty string, it has no character outside the alphabet, and \<^verbatim>\<open>pattern_to_int_list\<close>
  raises: \<^verbatim>\<open>[01*]+\<close> matches no empty string.
\<close>

theorem pattern_to_int_list_empty_pattern_dimension_zero:
  "int (length ('''' :: string)) = 0 \<and> set ('''' :: string) \<subseteq> {CHR ''0'', CHR ''1'', CHR ''*''} \<and>
   pattern_to_int_list '''' 0 = Inl (ValueError PatternNotOverAlphabet)"
  by (simp add: pattern_to_int_list_def WILDCARD_STRING_PATTERN_def)

text \<open>
  Claim C10. For a dimension \<open>d \<ge> 1\<close> and a pattern of length \<open>d\<close> over the alphabet,
  the list \<^verbatim>\<open>pattern_to_int_list\<close> returns is strictly increasing, hence free of
  duplicates.
\<close>

theorem pattern_to_int_list_strictly_increasing:
  assumes "1 \<le> dimension" and "int (length pattern) = dimension"
    and "set pattern \<subseteq> {CHR ''0'', CHR ''1'', CHR ''*''}"
  shows "\<exists>numbers. pattern_to_int_list pattern dimension = Inr numbers \<and>
     sorted_wrt (<) numbers \<and> distinct numbers"
proof -
  define d where "d = nat dimension"
  with assms have d: "1 \<le> d" "dimension = int d" "length pattern = d" "pattern \<noteq> []" by auto
  with assms(3) have "WILDCARD_STRING_PATTERN pattern" by (simp add: WILDCARD_STRING_PATTERN_iff)
  from pattern_to_int_list_filter [OF d(1,3) this] d(2) show ?thesis
    by (simp add: sorted_wrt_filter)
qed

theorem pattern_to_int_list_strictly_increasing_witness:
  "pattern_to_int_list ''*1*'' 3 = Inr [2, 3, 6, 7] \<and> sorted_wrt (<) [2, 3, 6, 7 :: int]"
proof -
  have run: "pattern_to_int_list ''*1*'' 3 = Inr [2, 3, 6, 7]"
    by code_simp
  have "(1::int) \<le> 3" "int (length ''*1*'') = 3" "set ''*1*'' \<subseteq> {CHR ''0'', CHR ''1'', CHR ''*''}"
    by simp_all
  from pattern_to_int_list_strictly_increasing [OF this] run show ?thesis by simp
qed

section \<open>Coloring vertices\<close>

text \<open>
  Which vertex an id names depends on the list of references and on the ids of the
  objects only, and coloring changes neither.
\<close>

lemma lookup_location_by_id_cong:
  assumes "vs_vertices a = vs_vertices b"
    and "\<And>r. v_vertex_id (vs_heap a r) = v_vertex_id (vs_heap b r)"
  shows "lookup_location_by_id a i = lookup_location_by_id b i"
  using assms by (simp add: lookup_location_by_id_def)

lemma lookup_vertex_by_id_cong:
  assumes "vs_vertices a = vs_vertices b"
    and "\<And>r. v_vertex_id (vs_heap a r) = v_vertex_id (vs_heap b r)"
  shows "lookup_vertex_by_id a i = lookup_vertex_by_id b i"
  using assms(1) lookup_location_by_id_cong [OF assms, of i]
  by (simp add: lookup_vertex_by_id_def split: option.splits)

lemma color_by_id_frame:
  "vs_vertices (snd (color_by_id s i c)) = vs_vertices s"
  "vs_dimension (snd (color_by_id s i c)) = vs_dimension s"
  "v_vertex_id (vs_heap (snd (color_by_id s i c)) r) = v_vertex_id (vs_heap s r)"
  by (simp_all add: color_by_id_def Vertex_color_def split: option.splits)

lemma color_by_id_lookup:
  "lookup_vertex_by_id (snd (color_by_id s i c)) j = lookup_vertex_by_id s j"
  by (rule lookup_vertex_by_id_cong) (simp_all add: color_by_id_frame)

lemma color_by_id_found:
  "lookup_vertex_by_id s i = Some r \<Longrightarrow>
     fst (color_by_id s i c) = None \<and> v_color_string (vs_heap (snd (color_by_id s i c)) r) = c"
  by (simp add: color_by_id_def Vertex_color_def)

lemma color_by_id_missing:
  "lookup_vertex_by_id s i = None \<Longrightarrow> color_by_id s i c = (Some (ValueError VertexDoesNotExist), s)"
  by (simp add: color_by_id_def)

lemma color_by_id_keeps_color:
  "v_color_string (vs_heap s r) = c \<Longrightarrow> v_color_string (vs_heap (snd (color_by_id s i c)) r) = c"
  by (simp add: color_by_id_def Vertex_color_def split: option.splits)

lemma color_vertices_by_id_list_frame:
  "vs_vertices (snd (color_vertices_by_id_list s is c)) = vs_vertices s \<and>
   vs_dimension (snd (color_vertices_by_id_list s is c)) = vs_dimension s \<and>
   (\<forall>r. v_vertex_id (vs_heap (snd (color_vertices_by_id_list s is c)) r) = v_vertex_id (vs_heap s r))"
proof (induction "is" arbitrary: s)
  case Nil
  show ?case by simp
next
  case (Cons i "is")
  obtain raised s' where step: "color_by_id s i c = (raised, s')"
    by (cases "color_by_id s i c")
  have frame: "vs_vertices s' = vs_vertices s" "vs_dimension s' = vs_dimension s"
    "\<And>r. v_vertex_id (vs_heap s' r) = v_vertex_id (vs_heap s r)"
    using color_by_id_frame [of s i c] step by simp_all
  show ?case
  proof (cases raised)
    case None
    with step Cons.IH [of s'] frame show ?thesis by simp
  next
    case (Some e)
    with step frame show ?thesis by simp
  qed
qed

lemma color_vertices_by_id_list_lookup:
  "lookup_vertex_by_id (snd (color_vertices_by_id_list s is c)) j = lookup_vertex_by_id s j"
  by (rule lookup_vertex_by_id_cong) (simp_all add: color_vertices_by_id_list_frame)

lemma color_vertices_by_id_list_keeps_color:
  "v_color_string (vs_heap s r) = c \<Longrightarrow>
     v_color_string (vs_heap (snd (color_vertices_by_id_list s is c)) r) = c"
proof (induction "is" arbitrary: s)
  case Nil
  then show ?case by simp
next
  case (Cons i "is")
  obtain raised s' where step: "color_by_id s i c = (raised, s')"
    by (cases "color_by_id s i c")
  with color_by_id_keeps_color [OF Cons.prems, of i] have "v_color_string (vs_heap s' r) = c"
    by simp
  with Cons.IH [of s'] step show ?case by (cases raised) simp_all
qed

lemma color_vertices_by_id_list_all_present:
  assumes "\<forall>i \<in> set is. lookup_vertex_by_id s i \<noteq> None"
  shows "fst (color_vertices_by_id_list s is c) = None \<and>
     (\<forall>i \<in> set is. \<exists>r. lookup_vertex_by_id s i = Some r \<and>
         v_color_string (vs_heap (snd (color_vertices_by_id_list s is c)) r) = c)"
  using assms
proof (induction "is" arbitrary: s)
  case Nil
  show ?case by simp
next
  case (Cons i "is")
  from Cons.prems obtain r where r: "lookup_vertex_by_id s i = Some r" by auto
  define s' where "s' = snd (color_by_id s i c)"
  from color_by_id_found [OF r, of c] have step: "color_by_id s i c = (None, s')"
    and colored: "v_color_string (vs_heap s' r) = c"
    by (simp_all add: s'_def prod_eq_iff)
  have same: "\<And>j. lookup_vertex_by_id s' j = lookup_vertex_by_id s j"
    by (simp add: s'_def color_by_id_lookup)
  from Cons.prems same have "\<forall>j \<in> set is. lookup_vertex_by_id s' j \<noteq> None" by simp
  from Cons.IH [OF this] have ih: "fst (color_vertices_by_id_list s' is c) = None"
    "\<forall>j \<in> set is. \<exists>r. lookup_vertex_by_id s j = Some r \<and>
         v_color_string (vs_heap (snd (color_vertices_by_id_list s' is c)) r) = c"
    by (simp_all add: same)
  from color_vertices_by_id_list_keeps_color [OF colored, of "is"]
  have "v_color_string (vs_heap (snd (color_vertices_by_id_list s' is c)) r) = c" .
  with ih r step show ?case by simp
qed

lemma color_vertices_by_id_list_append:
  "color_vertices_by_id_list s (xs @ ys) c =
     (case color_vertices_by_id_list s xs c of
        (Some e, s') \<Rightarrow> (Some e, s')
      | (None, s') \<Rightarrow> color_vertices_by_id_list s' ys c)"
proof (induction xs arbitrary: s)
  case Nil
  show ?case by simp
next
  case (Cons x xs)
  obtain raised s' where step: "color_by_id s x c = (raised, s')"
    by (cases "color_by_id s x c")
  with Cons.IH [of s'] show ?case by (cases raised) simp_all
qed

text \<open>
  Claim C8. \<^verbatim>\<open>color_vertices_by_id_list\<close> colors the ids in list order and is not
  all-or-nothing: when every id of \<open>earlier\<close> names a vertex and \<open>missing\<close> names none,
  the call on \<open>earlier @ missing # later\<close> raises the \<^verbatim>\<open>ValueError\<close> of
  \<^verbatim>\<open>color_by_id\<close> and leaves the vertex set exactly as coloring \<open>earlier\<close> alone leaves
  it, with every vertex of \<open>earlier\<close> carrying the new color.
\<close>

theorem color_vertices_by_id_list_not_all_or_nothing:
  assumes present: "\<forall>i \<in> set earlier. lookup_vertex_by_id self i \<noteq> None"
    and missing: "lookup_vertex_by_id self missing = None"
  shows "\<exists>self'.
     color_vertices_by_id_list self (earlier @ missing # later) color_string =
       (Some (ValueError VertexDoesNotExist), self') \<and>
     color_vertices_by_id_list self earlier color_string = (None, self') \<and>
     (\<forall>i \<in> set earlier. \<exists>vertex. lookup_vertex_by_id self' i = Some vertex \<and>
        v_color_string (vs_heap self' vertex) = color_string)"
proof -
  define self' where "self' = snd (color_vertices_by_id_list self earlier color_string)"
  from color_vertices_by_id_list_all_present [OF present, of color_string]
  have finished: "color_vertices_by_id_list self earlier color_string = (None, self')"
    and colored: "\<forall>i \<in> set earlier. \<exists>r. lookup_vertex_by_id self i = Some r \<and>
         v_color_string (vs_heap self' r) = color_string"
    by (simp_all add: self'_def prod_eq_iff)
  have same: "\<And>j. lookup_vertex_by_id self' j = lookup_vertex_by_id self j"
    by (simp add: self'_def color_vertices_by_id_list_lookup)
  from missing same have "lookup_vertex_by_id self' missing = None" by simp
  then have "color_by_id self' missing color_string = (Some (ValueError VertexDoesNotExist), self')"
    by (rule color_by_id_missing)
  with finished have "color_vertices_by_id_list self (earlier @ missing # later) color_string =
       (Some (ValueError VertexDoesNotExist), self')"
    by (simp add: color_vertices_by_id_list_append)
  with finished colored same show ?thesis by simp
qed

theorem color_vertices_by_id_list_not_all_or_nothing_witness:
  "color_vertices_by_id_list (VertexSet_init 2) [3, 1, 7, 2] (Some ''red'') =
     (Some (ValueError VertexDoesNotExist),
      snd (color_vertices_by_id_list (VertexSet_init 2) [3, 1] (Some ''red''))) \<and>
   fst (color_vertices_by_id_list (VertexSet_init 2) [3, 1] (Some ''red'')) = None"
proof -
  have lookups: "lookup_vertex_by_id (VertexSet_init 2) 3 = Some 3"
    "lookup_vertex_by_id (VertexSet_init 2) 1 = Some 1"
    "lookup_vertex_by_id (VertexSet_init 2) 7 = None"
    by (simp_all add: lookup_vertex_by_id_def lookup_location_by_id_def VertexSet_init_def
        how_many_bit_strings_def py_range_def upto.simps Vertex_init_def enumerate_eq_zip upt_rec)
  then have "\<forall>i \<in> set [3, 1]. lookup_vertex_by_id (VertexSet_init 2) i \<noteq> None" by simp
  from color_vertices_by_id_list_not_all_or_nothing [OF this lookups(3), of "[2]" "Some ''red''"]
  show ?thesis by auto
qed

section \<open>The edge set under rotation, reflection and reset\<close>

text \<open>
  Claim C3. \<^verbatim>\<open>Cube.rotate\<close>, \<^verbatim>\<open>Cube.reflect\<close> and \<^verbatim>\<open>Cube.reset_positions\<close> leave the
  edge set as it was, keys, color strings and order, whatever their arguments and
  whether or not they raise.
\<close>

theorem edge_set_unchanged_by_rotate_reflect_reset:
  "cube_edge_set (snd (Cube_rotate cube rotation_list preserve_colors)) = cube_edge_set cube \<and>
   cube_edge_set (snd (Cube_reflect cube bit_mask preserve_colors)) = cube_edge_set cube \<and>
   cube_edge_set (snd (Cube_reset_positions cube)) = cube_edge_set cube"
  by (simp add: Cube_rotate_def Cube_reflect_def Cube_reset_positions_def split: prod.splits)

section \<open>Looking a vertex up by location\<close>

lemma lookup_vertex_by_location_cases:
  "lookup_vertex_by_location self location =
     (let n = int (length (vs_vertices self))
      in if 0 \<le> location \<and> location < n then Some (vs_vertices self ! nat location)
         else if - n \<le> location \<and> location < 0 then Some (vs_vertices self ! nat (n + location))
         else None)"
  by (simp add: lookup_vertex_by_location_def py_getitem_def py_index_def Let_def)

text \<open>
  Claim C4 says that every negative location gives \<^verbatim>\<open>None\<close>. On the cube of dimension
  1 the location \<open>-1\<close> gives the vertex with id 1, the one at location 1: the subscript
  \<^verbatim>\<open>self.vertices[location]\<close> counts a negative index from the end and raises no
  \<^verbatim>\<open>IndexError\<close>.
\<close>

theorem lookup_vertex_by_location_minus_one:
  "\<exists>cube. Cube_init 1 = Inr cube \<and>
     lookup_vertex_by_location (cube_vertex_set cube) (- 1) = Some 1 \<and>
     lookup_id_by_location (cube_vertex_set cube) (- 1) = Some 1 \<and>
     lookup_vertex_by_location (cube_vertex_set cube) 1 = Some 1"
  by (simp add: Cube_init_def EdgeSet_init_def VertexSet_init_def how_many_bit_strings_def
      py_range_def py_range_from_def weight_def weight_loop.simps lookup_vertex_by_location_def py_getitem_def py_index_def
      lookup_id_by_location_def Vertex_init_def upto.simps)

section \<open>Induced edges\<close>

text \<open>
  Claim C5 says that the induced edges do not depend on the order of the id list. On the
  cube of dimension 1 the pair \<open>(0, 1)\<close> is an edge, and the id list \<open>[1, 0]\<close> holds both
  of its endpoints, but \<^verbatim>\<open>get_induced_edges_from_id_list\<close> returns no edge for it: it
  tests the pair \<open>(1, 0)\<close> only, and the keys of the edge set have the lower id first.
\<close>

theorem get_induced_edges_from_id_list_reversed_pair:
  "\<exists>cube. Cube_init 1 = Inr cube \<and>
     in_edges (0, 1) (es_edges (cube_edge_set cube)) \<and>
     get_induced_edges_from_id_list (cube_edge_set cube) [1, 0] = [] \<and>
     get_induced_edges_from_id_list (cube_edge_set cube) [0, 1] = [(0, 1)]"
  by (simp add: Cube_init_def EdgeSet_init_def VertexSet_init_def how_many_bit_strings_def
      py_range_def py_range_from_def weight_def weight_loop.simps upto.simps in_edges_def
      get_induced_edges_from_id_list_def upt_rec)

section \<open>The weight of a number\<close>

lemma weight_loop_acc: "weight_loop n acc = acc + weight_loop n 0"
proof (induction "nat n" arbitrary: n acc rule: less_induct)
  case less
  show ?case
  proof (cases "0 < n")
    case True
    then have "nat (n div 2) < nat n" by simp
    from less [OF this] have
      "weight_loop (n div 2) (acc + n mod 2) = acc + n mod 2 + weight_loop (n div 2) 0"
      "weight_loop (n div 2) (0 + n mod 2) = 0 + n mod 2 + weight_loop (n div 2) 0"
      by blast+
    with True show ?thesis
      by (simp add: weight_loop.simps [of n acc] weight_loop.simps [of n 0] drop_bit_eq_div)
  next
    case False
    then show ?thesis by (simp add: weight_loop.simps [of n])
  qed
qed

lemma weight_loop_positive:
  "0 < n \<Longrightarrow> weight_loop n 0 = n mod 2 + weight_loop (n div 2) 0"
  using weight_loop.simps [of n 0] weight_loop_acc [of "n div 2" "n mod 2"]
  by (simp add: drop_bit_eq_div)

lemma weight_loop_nonpositive: "n \<le> 0 \<Longrightarrow> weight_loop n 0 = 0"
  by (simp add: weight_loop.simps [of n])

lemma weight_loop_nat:
  "0 \<le> weight_loop (int m) 0 \<and> (weight_loop (int m) 0 = 0 \<longleftrightarrow> m = 0) \<and>
   (weight_loop (int m) 0 = 1 \<longleftrightarrow> (\<exists>k. m = 2 ^ k))"
proof (induction m rule: less_induct)
  case (less m)
  show ?case
  proof (cases "m = 0")
    case True
    then show ?thesis by (simp add: weight_loop_nonpositive)
  next
    case False
    then have pos: "0 < int m" by simp
    from False have "m div 2 < m" by simp
    from less.IH [OF this] have ih: "0 \<le> weight_loop (int (m div 2)) 0"
      "weight_loop (int (m div 2)) 0 = 0 \<longleftrightarrow> m div 2 = 0"
      "weight_loop (int (m div 2)) 0 = 1 \<longleftrightarrow> (\<exists>k. m div 2 = 2 ^ k)"
      by simp_all
    have unfold: "weight_loop (int m) 0 = int m mod 2 + weight_loop (int (m div 2)) 0"
      using weight_loop_positive [OF pos] by (simp add: zdiv_int)
    show ?thesis
    proof (cases "even m")
      case True
      then have m: "m = 2 * (m div 2)" by auto
      have "(\<exists>k. m div 2 = 2 ^ k) \<longleftrightarrow> (\<exists>k. m = 2 ^ k)"
      proof
        assume "\<exists>k. m div 2 = 2 ^ k"
        then obtain k where "m div 2 = 2 ^ k" ..
        with m have "m = 2 ^ Suc k" by simp
        then show "\<exists>k. m = 2 ^ k" ..
      next
        assume "\<exists>k. m = 2 ^ k"
        then obtain k where k: "m = 2 ^ k" ..
        with True have "k \<noteq> 0" by (cases k) auto
        then obtain k' where "k = Suc k'" by (cases k) auto
        with k have "m div 2 = 2 ^ k'" by simp
        then show "\<exists>k. m div 2 = 2 ^ k" ..
      qed
      moreover from True have "int m mod 2 = 0" by presburger
      moreover from False m have "m div 2 \<noteq> 0" by linarith
      ultimately show ?thesis using ih unfold by simp
    next
      case odd: False
      then have mod: "int m mod 2 = 1"
        by presburger
      have "(\<exists>k. m = 2 ^ k) \<longleftrightarrow> m div 2 = 0"
      proof
        assume "\<exists>k. m = 2 ^ k"
        then obtain k where k: "m = 2 ^ k" ..
        with odd have "k = 0" by (cases k) auto
        with k show "m div 2 = 0" by simp
      next
        assume "m div 2 = 0"
        then have "m < 2" by (simp add: div_eq_0_iff)
        with odd have "m = 1" by (cases m) auto
        then have "m = 2 ^ 0" by simp
        then show "\<exists>k. m = 2 ^ k" ..
      qed
      with ih unfold mod False show ?thesis by simp
    qed
  qed
qed

lemma weight_one_iff: "weight x = Inr 1 \<longleftrightarrow> (\<exists>k. x = 2 ^ k)"
proof (cases "x < 0")
  case True
  have "\<And>k. x \<noteq> 2 ^ k"
  proof
    fix k assume "x = 2 ^ k"
    with True show False by simp
  qed
  with True show ?thesis by (simp add: weight_def)
next
  case False
  then have "x = int (nat x)" by simp
  then obtain m where m: "x = int m" ..
  have "\<And>k. int m = 2 ^ k \<longleftrightarrow> m = 2 ^ k"
  proof -
    fix k
    have "int m = 2 ^ k \<longleftrightarrow> int m = int (2 ^ k)" by simp
    then show "int m = 2 ^ k \<longleftrightarrow> m = 2 ^ k" by (simp only: of_nat_eq_iff)
  qed
  then have "(\<exists>k. int m = 2 ^ k) \<longleftrightarrow> (\<exists>k. m = 2 ^ k)" by simp
  with weight_loop_nat [of m] m show ?thesis by (simp add: weight_def)
qed

lemma weight_total: "0 \<le> x \<Longrightarrow> \<exists>w. weight x = Inr w"
  by (simp add: weight_def)

section \<open>Construction of the edge set\<close>

lemma set_update_subset:
  "e \<in> set (AList.update k v al) \<Longrightarrow> e \<in> set al \<or> e = (k, v)"
  by (induction al) (auto split: if_splits)

lemma EdgeSet_init_inner_result:
  assumes "0 \<le> low" and "\<forall>h \<in> set highs. 0 \<le> h"
  shows "\<exists>edges'. EdgeSet_init_inner low highs edges = Inr edges' \<and>
     fst ` set edges' =
       fst ` set edges \<union> {(low, h) |h. h \<in> set highs \<and> weight (low XOR h) = Inr 1} \<and>
     (distinct (map fst edges) \<longrightarrow> distinct (map fst edges')) \<and>
     ((\<forall>e \<in> set edges. snd e = []) \<longrightarrow> (\<forall>e \<in> set edges'. snd e = []))"
  using assms(2)
proof (induction highs arbitrary: edges)
  case Nil
  show ?case by simp
next
  case (Cons high highs)
  from assms(1) Cons.prems have "0 \<le> low XOR high" by simp
  then obtain w where w: "weight (low XOR high) = Inr w" by (auto simp: weight_def)
  define next_edges where
    "next_edges = (if w = 1 then AList.update (low, high) [] edges else edges)"
  have keys: "fst ` set next_edges =
      fst ` set edges \<union> {(low, h) |h. h = high \<and> weight (low XOR h) = Inr 1}"
    using w by (auto simp: next_edges_def dom_update)
  have dist: "distinct (map fst edges) \<longrightarrow> distinct (map fst next_edges)"
    by (simp add: next_edges_def distinct_update)
  have cols: "(\<forall>e \<in> set edges. snd e = []) \<longrightarrow> (\<forall>e \<in> set next_edges. snd e = [])"
    by (auto simp: next_edges_def dest: set_update_subset)
  from Cons.prems have "\<forall>h \<in> set highs. 0 \<le> h" by simp
  from Cons.IH [OF this, of next_edges] obtain edges' where
    run: "EdgeSet_init_inner low highs next_edges = Inr edges'" and
    keys': "fst ` set edges' = fst ` set next_edges \<union>
       {(low, h) |h. h \<in> set highs \<and> weight (low XOR h) = Inr 1}" and
    dist': "distinct (map fst next_edges) \<longrightarrow> distinct (map fst edges')" and
    cols': "(\<forall>e \<in> set next_edges. snd e = []) \<longrightarrow> (\<forall>e \<in> set edges'. snd e = [])"
    by blast
  have "EdgeSet_init_inner low (high # highs) edges = Inr edges'"
    using w run by (simp add: next_edges_def)
  moreover have "fst ` set edges' = fst ` set edges \<union>
      {(low, h) |h. h \<in> set (high # highs) \<and> weight (low XOR h) = Inr 1}"
    unfolding keys' keys by auto
  ultimately show ?case using dist dist' cols cols' by blast
qed

lemma EdgeSet_init_outer_result:
  assumes "\<forall>l \<in> set lows. 0 \<le> l"
  shows "\<exists>edges'. EdgeSet_init_outer n lows edges = Inr edges' \<and>
     fst ` set edges' =
       fst ` set edges \<union>
       {(l, h). l \<in> set lows \<and> l \<le> h \<and> h < n \<and> weight (l XOR h) = Inr 1} \<and>
     (distinct (map fst edges) \<longrightarrow> distinct (map fst edges')) \<and>
     ((\<forall>e \<in> set edges. snd e = []) \<longrightarrow> (\<forall>e \<in> set edges'. snd e = []))"
  using assms
proof (induction lows arbitrary: edges)
  case Nil
  show ?case by simp
next
  case (Cons low lows)
  then have low: "0 \<le> low" and rest: "\<forall>l \<in> set lows. 0 \<le> l" by simp_all
  from low have "\<forall>h \<in> set (py_range_from low n). 0 \<le> h" by (simp add: py_range_from_def)
  from EdgeSet_init_inner_result [OF low this, of edges] obtain next_edges where
    inner: "EdgeSet_init_inner low (py_range_from low n) edges = Inr next_edges" and
    keys: "fst ` set next_edges = fst ` set edges \<union>
       {(low, h) |h. h \<in> set (py_range_from low n) \<and> weight (low XOR h) = Inr 1}" and
    dist: "distinct (map fst edges) \<longrightarrow> distinct (map fst next_edges)" and
    cols: "(\<forall>e \<in> set edges. snd e = []) \<longrightarrow> (\<forall>e \<in> set next_edges. snd e = [])"
    by blast
  from Cons.IH [OF rest, of next_edges] obtain edges' where
    run: "EdgeSet_init_outer n lows next_edges = Inr edges'" and
    keys': "fst ` set edges' = fst ` set next_edges \<union>
       {(l, h). l \<in> set lows \<and> l \<le> h \<and> h < n \<and> weight (l XOR h) = Inr 1}" and
    dist': "distinct (map fst next_edges) \<longrightarrow> distinct (map fst edges')" and
    cols': "(\<forall>e \<in> set next_edges. snd e = []) \<longrightarrow> (\<forall>e \<in> set edges'. snd e = [])"
    by blast
  have "EdgeSet_init_outer n (low # lows) edges = Inr edges'"
    using inner run by simp
  moreover have "fst ` set edges' = fst ` set edges \<union>
      {(l, h). l \<in> set (low # lows) \<and> l \<le> h \<and> h < n \<and> weight (l XOR h) = Inr 1}"
    unfolding keys' keys by (auto simp: py_range_from_def)
  ultimately show ?case using dist dist' cols cols' by blast
qed

lemma EdgeSet_init_result:
  assumes "vs_dimension vertex_set = int d"
  shows "\<exists>edges. EdgeSet_init vertex_set = Inr \<lparr>es_dimension = int d, es_edges = edges\<rparr> \<and>
     fst ` set edges = hypercube_edges d \<and> distinct (map fst edges) \<and>
     (\<forall>e \<in> set edges. snd e = [])"
proof -
  have "\<forall>l \<in> set (py_range (2 ^ d)). 0 \<le> l" by (simp add: py_range_def)
  from EdgeSet_init_outer_result [OF this, of "2 ^ d" "[]"] obtain edges where
    "EdgeSet_init_outer (2 ^ d) (py_range (2 ^ d)) [] = Inr edges" and
    "fst ` set edges =
       {(l, h). l \<in> set (py_range (2 ^ d)) \<and> l \<le> h \<and> h < 2 ^ d \<and> weight (l XOR h) = Inr 1}" and
    "distinct (map fst edges)" and "\<forall>e \<in> set edges. snd e = []"
    by auto
  moreover have "{(l, h). l \<in> set (py_range (2 ^ d)) \<and> l \<le> h \<and> h < 2 ^ d \<and>
      weight (l XOR h) = Inr 1} = hypercube_edges d"
    by (auto simp: hypercube_edges_def py_range_def)
  ultimately show ?thesis using assms
    by (simp add: EdgeSet_init_def how_many_bit_strings_def)
qed

lemma xor_power_of_two:
  "(u::int) XOR 2 ^ k = (if bit u k then u - 2 ^ k else u + 2 ^ k)"
proof -
  have "u XOR 2 ^ k = flip_bit k u" by (simp add: flip_bit_eq_xor)
  then show ?thesis by (simp add: flip_bit_eq_if set_bit_eq unset_bit_eq)
qed

lemma xor_power_of_two_bound:
  assumes "0 \<le> (u::int)" "u < 2 ^ d" "k < d"
  shows "0 \<le> u XOR 2 ^ k \<and> u XOR 2 ^ k < 2 ^ d"
proof -
  from assms(3) have "(2::int) ^ k < 2 ^ d" by simp
  from XOR_upper [OF assms(1,2) this] assms(1) show ?thesis by simp
qed

lemma bit_xor_power_of_two: "bit ((u::int) XOR 2 ^ k) k \<longleftrightarrow> \<not> bit u k"
  by (simp add: bit_xor_iff bit_exp_iff)

lemma xor_power_of_two_twice: "((u::int) XOR 2 ^ k) XOR 2 ^ k = u"
  by (simp add: xor.assoc)

lemma card_bit_clear:
  assumes "k < d"
  shows "card {u::int. 0 \<le> u \<and> u < 2 ^ d \<and> \<not> bit u k} = 2 ^ (d - 1)"
proof -
  define A where "A = {u::int. 0 \<le> u \<and> u < 2 ^ d \<and> bit u k}"
  define B where "B = {u::int. 0 \<le> u \<and> u < 2 ^ d \<and> \<not> bit u k}"
  define f where "f = (\<lambda>u::int. u XOR 2 ^ k)"
  have fin: "finite A" "finite B"
    by (rule finite_subset [of _ "{0..<2 ^ d}"]; auto simp: A_def B_def)+
  have inj: "inj_on f S" for S
    by (rule inj_on_inverseI [of _ f]) (simp add: f_def xor_power_of_two_twice)
  have "f ` B \<subseteq> A"
    using xor_power_of_two_bound [OF _ _ assms]
    by (auto simp: A_def B_def f_def bit_xor_power_of_two)
  then have "card (f ` B) \<le> card A" using fin by (simp add: card_mono)
  then have 1: "card B \<le> card A" by (simp add: card_image inj)
  have "f ` A \<subseteq> B"
    using xor_power_of_two_bound [OF _ _ assms]
    by (auto simp: A_def B_def f_def bit_xor_power_of_two)
  then have "card (f ` A) \<le> card B" using fin by (simp add: card_mono)
  then have 2: "card A \<le> card B" by (simp add: card_image inj)
  have "A \<union> B = {0..<2 ^ d}" "A \<inter> B = {}" by (auto simp: A_def B_def)
  with fin have "card A + card B = card {0::int..<2 ^ d}"
    by (metis card_Un_disjoint)
  then have "card A + card B = 2 ^ d" by simp
  with 1 2 have "2 * card B = 2 ^ d" by simp
  moreover from assms obtain d' where "d = Suc d'" by (cases d) auto
  ultimately show ?thesis by (simp add: B_def)
qed

lemma hypercube_edges_by_bit:
  "hypercube_edges d =
     (\<Union>k \<in> {..<d}. (\<lambda>u. (u, u + 2 ^ k)) ` {u. 0 \<le> u \<and> u < 2 ^ d \<and> \<not> bit u k})"
proof (intro set_eqI iffI)
  fix e :: "int \<times> int"
  assume "e \<in> hypercube_edges d"
  then obtain u v where e: "e = (u, v)" and u: "0 \<le> u" "u \<le> v" and v: "v < 2 ^ d"
    and w: "weight (u XOR v) = Inr 1"
    by (auto simp: hypercube_edges_def)
  from w obtain k where k: "u XOR v = 2 ^ k" by (auto simp: weight_one_iff)
  have "u XOR (u XOR v) = v" by (simp flip: xor.assoc)
  with k have "v = u XOR 2 ^ k" by simp
  with u(2) have clear: "\<not> bit u k" and sum: "v = u + 2 ^ k"
    by (auto simp: xor_power_of_two split: if_splits)
  from sum u(1) v have "(2::int) ^ k < 2 ^ d" by linarith
  then have "k < d" by simp
  moreover from u v have "u < 2 ^ d" by simp
  with u(1) clear have "u \<in> {u. 0 \<le> u \<and> u < 2 ^ d \<and> \<not> bit u k}" by simp
  then have "(u, u + 2 ^ k) \<in> (\<lambda>u. (u, u + 2 ^ k)) ` {u. 0 \<le> u \<and> u < 2 ^ d \<and> \<not> bit u k}"
    by (rule imageI)
  ultimately
  show "e \<in> (\<Union>k \<in> {..<d}. (\<lambda>u. (u, u + 2 ^ k)) ` {u. 0 \<le> u \<and> u < 2 ^ d \<and> \<not> bit u k})"
    unfolding e sum by blast
next
  fix e :: "int \<times> int"
  assume "e \<in> (\<Union>k \<in> {..<d}. (\<lambda>u. (u, u + 2 ^ k)) ` {u. 0 \<le> u \<and> u < 2 ^ d \<and> \<not> bit u k})"
  then obtain k u where k: "k < d" and e: "e = (u, u + 2 ^ k)"
    and u: "0 \<le> u" "u < 2 ^ d" "\<not> bit u k"
    by auto
  from u(3) have x: "u XOR 2 ^ k = u + 2 ^ k" by (simp add: xor_power_of_two)
  with xor_power_of_two_bound [OF u(1,2) k] have "u + 2 ^ k < 2 ^ d" by simp
  moreover have "u XOR (u + 2 ^ k) = 2 ^ k"
    unfolding x [symmetric] by (simp flip: xor.assoc)
  then have "weight (u XOR (u + 2 ^ k)) = Inr 1" by (auto simp: weight_one_iff)
  ultimately show "e \<in> hypercube_edges d"
    using e u(1) by (simp add: hypercube_edges_def)
qed

lemma card_hypercube_edges: "card (hypercube_edges d) = d * 2 ^ (d - 1)"
proof -
  define B where "B = (\<lambda>k. {u::int. 0 \<le> u \<and> u < 2 ^ d \<and> \<not> bit u k})"
  define E where "E = (\<lambda>k. (\<lambda>u::int. (u, u + 2 ^ k)) ` B k)"
  have finB: "finite (B k)" for k
    by (rule finite_subset [of _ "{0..<2 ^ d}"]) (auto simp: B_def)
  have cardE: "card (E k) = 2 ^ (d - 1)" if "k < d" for k
  proof -
    have "inj_on (\<lambda>u::int. (u, u + 2 ^ k)) (B k)" by (rule inj_onI) simp
    then have "card (E k) = card (B k)" by (simp add: E_def card_image)
    with card_bit_clear [OF that] show ?thesis by (simp add: B_def)
  qed
  have disjoint: "E k \<inter> E k' = {}" if "k \<noteq> k'" for k k'
  proof -
    have "(2::int) ^ k \<noteq> 2 ^ k'" using that by simp
    then show ?thesis by (auto simp: E_def)
  qed
  have "hypercube_edges d = (\<Union>k \<in> {..<d}. E k)"
    by (simp add: hypercube_edges_by_bit E_def B_def)
  also have "card \<dots> = (\<Sum>k \<in> {..<d}. card (E k))"
    by (rule card_UN_disjoint) (auto simp: E_def finB disjoint)
  also have "\<dots> = (\<Sum>k \<in> {..<d}. 2 ^ (d - 1))"
    by (rule sum.cong) (simp_all add: cardE)
  finally show ?thesis by simp
qed

lemma hypercube_edges_alt:
  "hypercube_edges d =
     {(u, v). 0 \<le> u \<and> u < 2 ^ d \<and> 0 \<le> v \<and> v < 2 ^ d \<and> u \<le> v \<and> weight (u XOR v) = Inr 1}"
  by (auto simp: hypercube_edges_def)

text \<open>
  Claim C9. For every dimension \<open>d \<ge> 0\<close> the constructor of \<^verbatim>\<open>EdgeSet\<close> succeeds, and
  its dict has exactly \<open>d * 2^(d-1)\<close> entries (none for \<open>d = 0\<close>): its keys are the
  pairs \<open>(u, v)\<close> of ids in \<open>[0, 2^d)\<close> with \<open>u \<le> v\<close> and \<^verbatim>\<open>weight(u ^ v) == 1\<close>, each
  once, and every color string is empty.
\<close>

theorem EdgeSet_init_edge_count:
  assumes "0 \<le> dimension" and "vs_dimension vertex_set = dimension"
  shows "\<exists>edge_set. EdgeSet_init vertex_set = Inr edge_set \<and>
     length (es_edges edge_set) = nat dimension * 2 ^ (nat dimension - 1) \<and>
     2 * length (es_edges edge_set) = nat dimension * 2 ^ nat dimension \<and>
     distinct (map fst (es_edges edge_set)) \<and>
     fst ` set (es_edges edge_set) =
       {(u, v). 0 \<le> u \<and> u < 2 ^ nat dimension \<and> 0 \<le> v \<and> v < 2 ^ nat dimension \<and>
                u \<le> v \<and> weight (u XOR v) = Inr 1} \<and>
     (\<forall>edge \<in> set (es_edges edge_set). snd edge = [])"
proof -
  define d where "d = nat dimension"
  with assms have "vs_dimension vertex_set = int d" by simp
  from EdgeSet_init_result [OF this] obtain edges where
    init: "EdgeSet_init vertex_set = Inr \<lparr>es_dimension = int d, es_edges = edges\<rparr>"
    and keys: "fst ` set edges = hypercube_edges d"
    and dist: "distinct (map fst edges)"
    and cols: "\<forall>e \<in> set edges. snd e = []"
    by blast
  from distinct_card [OF dist] have "length edges = card (fst ` set edges)"
    by simp
  with keys have len: "length edges = d * 2 ^ (d - 1)"
    by (simp add: card_hypercube_edges)
  then have "2 * length edges = d * 2 ^ d"
    by (cases d) simp_all
  with init keys dist cols len show ?thesis
    by (simp add: hypercube_edges_alt d_def)
qed

theorem EdgeSet_init_edge_count_witness:
  "\<exists>edge_set. EdgeSet_init (VertexSet_init 3) = Inr edge_set \<and>
     length (es_edges edge_set) = 12 \<and> distinct (map fst (es_edges edge_set))"
proof -
  have "(0::int) \<le> 3" "vs_dimension (VertexSet_init 3) = 3"
    by (simp_all add: VertexSet_init_def Let_def)
  from EdgeSet_init_edge_count [OF this] show ?thesis by auto
qed

lemma Cube_init_result:
  assumes "0 \<le> dimension"
  shows "\<exists>edges. Cube_init dimension =
       Inr \<lparr>cube_dimension = dimension, cube_vertex_set = VertexSet_init dimension,
            cube_edge_set = \<lparr>es_dimension = dimension, es_edges = edges\<rparr>\<rparr> \<and>
     fst ` set edges = hypercube_edges (nat dimension) \<and> distinct (map fst edges) \<and>
     (\<forall>e \<in> set edges. snd e = [])"
proof -
  from assms have "vs_dimension (VertexSet_init dimension) = int (nat dimension)"
    by (simp add: VertexSet_init_def Let_def)
  from EdgeSet_init_result [OF this] assms show ?thesis
    by (auto simp: Cube_init_def Let_def)
qed

lemma uncolored_edge_lookup:
  assumes "\<forall>e \<in> set (es_edges edge_set). snd e = []"
    and "in_edges (u_id, v_id) (es_edges edge_set) \<or> in_edges (v_id, u_id) (es_edges edge_set)"
  shows "lookup_color_by_vertex_ids edge_set u_id v_id = Some []"
proof -
  have "c = []" if "map_of (es_edges edge_set) key = Some c" for key c
  proof -
    from map_of_SomeD [OF that] have "(key, c) \<in> set (es_edges edge_set)" .
    with assms(1) show ?thesis by force
  qed
  with assms(2) show ?thesis
    by (auto simp: lookup_color_by_vertex_ids_def in_edges_def)
qed

section \<open>Coloring and uncoloring\<close>

lemma in_edges_update:
  "in_edges key (AList.update key' color edges) \<longleftrightarrow> key = key' \<or> in_edges key edges"
  by (simp add: in_edges_def update_conv')

lemma map_of_update_same: "map_of (AList.update key color edges) key = Some color"
  by (simp add: update_conv')

lemma color_by_ids_second_key:
  assumes "\<not> in_edges (u_id, v_id) (es_edges self)" "in_edges (v_id, u_id) (es_edges self)"
  shows  "color_by_ids self u_id v_id color_string =
      (None, self\<lparr>es_edges := AList.update (v_id, u_id) color_string (es_edges self)\<rparr>)"
  using assms
    by (simp add: color_by_ids_def)

lemma lookup_color_after_update:
  assumes "in_edges (u_id, v_id) (es_edges self)"
  shows  "lookup_color_by_vertex_ids (self\<lparr>es_edges := AList.update (u_id, v_id) color_string (es_edges self)\<rparr>) u_id v_id = Some color_string"
  using assms
  by (simp add: lookup_color_by_vertex_ids_def in_edges_update map_of_update_same)

lemma in_edges_update_present:
  assumes "in_edges (u_id, v_id) (es_edges self)"
  shows  "in_edges key (AList.update (u_id, v_id) color_string (es_edges self)) = in_edges key (es_edges self)"
  using assms
  by (auto simp add: in_edges_update)

lemma lookup_color_after_update_reversed:
  assumes "\<not> in_edges (u_id, v_id) (es_edges self)" "in_edges (v_id, u_id) (es_edges self)"
  shows  "lookup_color_by_vertex_ids (self\<lparr>es_edges := AList.update (v_id, u_id) color_string (es_edges self)\<rparr>) u_id v_id = Some color_string"
proof -
  from assms have "u_id \<noteq> v_id" by auto
  then have "\<not> in_edges (u_id, v_id) (AList.update (v_id, u_id) color_string (es_edges self))"
    using assms(1) by (simp add: in_edges_update)
  moreover have "in_edges (v_id, u_id) (AList.update (v_id, u_id) color_string (es_edges self))"
    by (simp add: in_edges_update)
  ultimately show ?thesis
    by (simp add: lookup_color_by_vertex_ids_def map_of_update_same)
qed

lemma color_by_ids_first_key:
  assumes "in_edges (u_id, v_id) (es_edges self)"
  shows  "color_by_ids self u_id v_id color_string =
      (None, self\<lparr>es_edges := AList.update (u_id, v_id) color_string (es_edges self)\<rparr>)"
  using assms
    by (simp add: color_by_ids_def)

lemma color_by_ids_edge:
  assumes "in_edges (u_id, v_id) (es_edges self) \<or> in_edges (v_id, u_id) (es_edges self)"
  shows "fst (color_by_ids self u_id v_id color_string) = None \<and>
     lookup_color_by_vertex_ids (snd (color_by_ids self u_id v_id color_string)) u_id v_id =
       Some color_string \<and>
     (\<forall>key. in_edges key (es_edges (snd (color_by_ids self u_id v_id color_string))) =
        in_edges key (es_edges self))"
proof (cases "in_edges (u_id, v_id) (es_edges self)")
  case True
  show ?thesis
    unfolding color_by_ids_first_key [OF True] fst_conv snd_conv
    using lookup_color_after_update [OF True] in_edges_update_present [OF True] by simp
next
  case False
  with assms have other: "in_edges (v_id, u_id) (es_edges self)" by simp
  show ?thesis
    unfolding color_by_ids_second_key [OF False other] fst_conv snd_conv
    using lookup_color_after_update_reversed [OF False other] in_edges_update_present [OF other] by simp
qed

text \<open>
  Claim C6, amended. Coloring a vertex id that names a vertex and then uncoloring it
  both succeed and leave the vertex with the empty string as its color; coloring an
  edge, given by its ids in either order, and then uncoloring it both succeed and
  leave the edge with the empty string. At construction every edge carries the empty
  string, so an edge is back at its first value; every vertex carries \<^verbatim>\<open>None\<close> at
  construction, and the empty string that uncoloring leaves is not that value.
\<close>

theorem color_then_uncolor:
  "(lookup_vertex_by_id vertex_set vertex_id = Some vertex \<longrightarrow>
      (\<exists>colored uncolored.
         color_by_id vertex_set vertex_id (Some color_string) = (None, colored) \<and>
         lookup_vertex_by_id colored vertex_id = Some vertex \<and>
         v_color_string (vs_heap colored vertex) = Some color_string \<and>
         uncolor_by_id colored vertex_id = (None, uncolored) \<and>
         lookup_vertex_by_id uncolored vertex_id = Some vertex \<and>
         v_color_string (vs_heap uncolored vertex) = Some [])) \<and>
   (in_edges (u_id, v_id) (es_edges edge_set) \<or> in_edges (v_id, u_id) (es_edges edge_set) \<longrightarrow>
      (\<exists>colored uncolored.
         color_by_ids edge_set u_id v_id color_string = (None, colored) \<and>
         lookup_color_by_vertex_ids colored u_id v_id = Some color_string \<and>
         uncolor_by_ids colored u_id v_id = (None, uncolored) \<and>
         lookup_color_by_vertex_ids uncolored u_id v_id = Some [])) \<and>
   (0 \<le> dimension \<longrightarrow>
      (\<exists>cube. Cube_init dimension = Inr cube \<and>
         (\<forall>vertex. v_color_string (vs_heap (cube_vertex_set cube) vertex) = None) \<and>
         (\<forall>u v. in_edges (u, v) (es_edges (cube_edge_set cube)) \<or>
                in_edges (v, u) (es_edges (cube_edge_set cube)) \<longrightarrow>
                lookup_color_by_vertex_ids (cube_edge_set cube) u v = Some [])))"
proof (intro conjI impI)
  assume found: "lookup_vertex_by_id vertex_set vertex_id = Some vertex"
  define colored where "colored = snd (color_by_id vertex_set vertex_id (Some color_string))"
  define uncolored where "uncolored = snd (uncolor_by_id colored vertex_id)"
  from color_by_id_found [OF found, of "Some color_string"]
  have 1: "color_by_id vertex_set vertex_id (Some color_string) = (None, colored)"
    "v_color_string (vs_heap colored vertex) = Some color_string"
    by (simp_all add: colored_def prod_eq_iff)
  have 2: "lookup_vertex_by_id colored vertex_id = Some vertex"
    using found by (simp add: colored_def color_by_id_lookup)
  from color_by_id_found [OF 2, of "Some []"]
  have 3: "uncolor_by_id colored vertex_id = (None, uncolored)"
    "v_color_string (vs_heap uncolored vertex) = Some []"
    by (simp_all add: uncolored_def uncolor_by_id_def prod_eq_iff)
  have 4: "lookup_vertex_by_id uncolored vertex_id = Some vertex"
    using 2 by (simp add: uncolored_def uncolor_by_id_def color_by_id_lookup)
  from 1 2 3 4 show "\<exists>colored uncolored.
         color_by_id vertex_set vertex_id (Some color_string) = (None, colored) \<and>
         lookup_vertex_by_id colored vertex_id = Some vertex \<and>
         v_color_string (vs_heap colored vertex) = Some color_string \<and>
         uncolor_by_id colored vertex_id = (None, uncolored) \<and>
         lookup_vertex_by_id uncolored vertex_id = Some vertex \<and>
         v_color_string (vs_heap uncolored vertex) = Some []"
    by blast
next
  assume edge: "in_edges (u_id, v_id) (es_edges edge_set) \<or> in_edges (v_id, u_id) (es_edges edge_set)"
  define colored where "colored = snd (color_by_ids edge_set u_id v_id color_string)"
  define uncolored where "uncolored = snd (uncolor_by_ids colored u_id v_id)"
  from color_by_ids_edge [OF edge, of color_string]
  have 1: "color_by_ids edge_set u_id v_id color_string = (None, colored)"
    "lookup_color_by_vertex_ids colored u_id v_id = Some color_string"
    and same: "\<And>key. in_edges key (es_edges colored) = in_edges key (es_edges edge_set)"
    by (auto simp: colored_def prod_eq_iff)
  from edge same have still:
    "in_edges (u_id, v_id) (es_edges colored) \<or> in_edges (v_id, u_id) (es_edges colored)"
    by simp
  from color_by_ids_edge [OF still, of "[]"]
  have 2: "uncolor_by_ids colored u_id v_id = (None, uncolored)"
    "lookup_color_by_vertex_ids uncolored u_id v_id = Some []"
    by (simp_all add: uncolored_def uncolor_by_ids_def prod_eq_iff)
  from 1 2 show "\<exists>colored uncolored.
         color_by_ids edge_set u_id v_id color_string = (None, colored) \<and>
         lookup_color_by_vertex_ids colored u_id v_id = Some color_string \<and>
         uncolor_by_ids colored u_id v_id = (None, uncolored) \<and>
         lookup_color_by_vertex_ids uncolored u_id v_id = Some []"
    by blast
next
  assume "0 \<le> dimension"
  from Cube_init_result [OF this] obtain edges where
    init: "Cube_init dimension =
       Inr \<lparr>cube_dimension = dimension, cube_vertex_set = VertexSet_init dimension,
            cube_edge_set = \<lparr>es_dimension = dimension, es_edges = edges\<rparr>\<rparr>"
    and cols: "\<forall>e \<in> set edges. snd e = []"
    by blast
  have "v_color_string (vs_heap (VertexSet_init dimension) vertex) = None" for vertex
    by (simp add: VertexSet_init_def Vertex_init_def Let_def)
  moreover have "lookup_color_by_vertex_ids \<lparr>es_dimension = dimension, es_edges = edges\<rparr> u v = Some []"
    if "in_edges (u, v) edges \<or> in_edges (v, u) edges" for u v
    using uncolored_edge_lookup [of "\<lparr>es_dimension = dimension, es_edges = edges\<rparr>" u v] cols that
    by simp
  ultimately show "\<exists>cube. Cube_init dimension = Inr cube \<and>
         (\<forall>vertex. v_color_string (vs_heap (cube_vertex_set cube) vertex) = None) \<and>
         (\<forall>u v. in_edges (u, v) (es_edges (cube_edge_set cube)) \<or>
                in_edges (v, u) (es_edges (cube_edge_set cube)) \<longrightarrow>
                lookup_color_by_vertex_ids (cube_edge_set cube) u v = Some [])"
    using init by simp
qed

theorem color_then_uncolor_witness:
  "(\<exists>colored uncolored.
      color_by_id (VertexSet_init 0) 0 (Some ''red'') = (None, colored) \<and>
      v_color_string (vs_heap colored 0) = Some ''red'' \<and>
      uncolor_by_id colored 0 = (None, uncolored) \<and>
      v_color_string (vs_heap uncolored 0) = Some []) \<and>
   (\<exists>colored uncolored.
      color_by_ids \<lparr>es_dimension = 1, es_edges = [((0, 1), [])]\<rparr> 1 0 ''red'' = (None, colored) \<and>
      lookup_color_by_vertex_ids colored 1 0 = Some ''red'' \<and>
      uncolor_by_ids colored 1 0 = (None, uncolored) \<and>
      lookup_color_by_vertex_ids uncolored 1 0 = Some []) \<and>
   (\<exists>cube. Cube_init 1 = Inr cube \<and>
      v_color_string (vs_heap (cube_vertex_set cube) 0) = None)"
proof -
  have vertex: "lookup_vertex_by_id (VertexSet_init 0) 0 = Some 0"
    by (simp add: lookup_vertex_by_id_def lookup_location_by_id_def VertexSet_init_def
        how_many_bit_strings_def py_range_def Vertex_init_def)
  have edge: "in_edges (1, 0) (es_edges \<lparr>es_dimension = 1, es_edges = [((0, 1), [])]\<rparr>) \<or>
      in_edges (0, 1) (es_edges \<lparr>es_dimension = 1, es_edges = [((0, 1), [])]\<rparr>)"
    by (simp add: in_edges_def)
  have dimension: "(0::int) \<le> 1" by simp
  from color_then_uncolor [where vertex_set = "VertexSet_init 0" and vertex_id = 0 and vertex = 0
      and color_string = "''red''" and u_id = 1 and v_id = 0
      and edge_set = "\<lparr>es_dimension = 1, es_edges = [((0, 1), [])]\<rparr>" and dimension = 1]
    vertex edge dimension
  show ?thesis by blast
qed

text \<open>
  Claim C6 as stated: the vertex of the cube of dimension 0 carries \<^verbatim>\<open>None\<close> at
  construction and the empty string after being colored and uncolored.
\<close>

theorem uncolor_by_id_leaves_empty_string_not_None:
  "lookup_vertex_by_id (VertexSet_init 0) 0 = Some 0 \<and>
   v_color_string (vs_heap (VertexSet_init 0) 0) = None \<and>
   v_color_string (vs_heap
      (snd (uncolor_by_id (snd (color_by_id (VertexSet_init 0) 0 (Some ''red''))) 0)) 0) = Some [] \<and>
   v_color_string (vs_heap
      (snd (uncolor_by_id (snd (color_by_id (VertexSet_init 0) 0 (Some ''red''))) 0)) 0) \<noteq>
   v_color_string (vs_heap (VertexSet_init 0) 0)"
  by (simp add: lookup_vertex_by_id_def lookup_location_by_id_def VertexSet_init_def
      how_many_bit_strings_def py_range_def Vertex_init_def uncolor_by_id_def color_by_id_def
      Vertex_color_def)

section \<open>Runs of subscript assignments\<close>

lemma place_all_Nil [simp]: "place_all [] current = current"
  by (simp add: place_all_def)

lemma place_all_Cons [simp]:
  "place_all ((target, item) # rest) current = place_all rest (current[target := item])"
  by (simp add: place_all_def)

lemma length_place_all [simp]: "length (place_all assignments current) = length current"
  by (induction assignments arbitrary: current) auto

lemma place_all_untouched:
  "target \<notin> fst ` set assignments \<Longrightarrow> place_all assignments current ! target = current ! target"
  by (induction assignments arbitrary: current) auto

lemma place_all_assigned:
  assumes "distinct (map fst assignments)" and "(target, item) \<in> set assignments"
    and "target < length current"
  shows "place_all assignments current ! target = item"
  using assms
proof (induction assignments arbitrary: current)
  case Nil
  then show ?case by simp
next
  case (Cons a assignments)
  obtain t v where a: "a = (t, v)" by (cases a)
  show ?case
  proof (cases "(target, item) = a")
    case True
    with a Cons.prems(1) have "target \<notin> fst ` set assignments" by auto
    from place_all_untouched [OF this] True a Cons.prems(3) show ?thesis by simp
  next
    case False
    with Cons.prems have "(target, item) \<in> set assignments" "distinct (map fst assignments)"
      by auto
    from Cons.IH [OF this(2,1)] Cons.prems(3) a show ?thesis by simp
  qed
qed

lemma py_setitem_in_range:
  "target < length current \<Longrightarrow> py_setitem current (int target) item = Inr (current[target := item])"
  by (simp add: py_setitem_def py_index_def)

lemma map_to_locations_loop_place_all:
  assumes "\<forall>(location, vertex) \<in> set pairs.
      function (int location) = Inr (int (target location)) \<and> target location < length current"
  shows "map_to_locations_loop function pairs current =
     (None, place_all (map (\<lambda>(location, vertex). (target location, vertex)) pairs) current)"
  using assms
proof (induction pairs arbitrary: current)
  case Nil
  show ?case by simp
next
  case (Cons pair pairs)
  obtain location vertex where pair: "pair = (location, vertex)" by (cases pair)
  with Cons.prems have here: "function (int location) = Inr (int (target location))"
    "target location < length current" by auto
  from Cons.prems have "\<forall>(location', vertex') \<in> set pairs.
      function (int location') = Inr (int (target location')) \<and>
      target location' < length (current[target location := vertex])"
    by auto
  from Cons.IH [OF this] here pair show ?case
    by (simp add: py_setitem_in_range)
qed

lemma map_to_locations_loop_first_raises:
  assumes "function (int location) = Inl e"
  shows "map_to_locations_loop function ((location, vertex) # rest) current = (Some e, current)"
  using assms by simp

lemma move_and_record_colors_moves:
  "(case move_and_record_colors heap function pairs color_mapping current of
      (raised, color_mapping', current') \<Rightarrow> (raised, current')) =
   map_to_locations_loop function pairs current"
proof (induction pairs arbitrary: color_mapping current)
  case Nil
  show ?case by simp
next
  case (Cons pair pairs)
  obtain location vertex where pair: "pair = (location, vertex)" by (cases pair)
  show ?case
  proof (cases "function (int location)")
    case (Inl e)
    with pair show ?thesis by simp
  next
    case (Inr new_location)
    show ?thesis
    proof (cases "py_setitem current new_location vertex")
      case (Inl e)
      with Inr pair show ?thesis by (simp add: Let_def)
    next
      case inner: (Inr current')
      with Inr pair Cons.IH show ?thesis by (simp add: Let_def)
    qed
  qed
qed

lemma move_and_record_colors_keys:
  "move_and_record_colors heap function pairs color_mapping current = (raised, color_mapping', current')
   \<Longrightarrow> fst ` set color_mapping' \<subseteq> fst ` set color_mapping \<union> (int \<circ> fst) ` set pairs"
proof (induction pairs arbitrary: color_mapping current)
  case Nil
  then show ?case by simp
next
  case (Cons pair pairs)
  obtain location vertex where pair: "pair = (location, vertex)" by (cases pair)
  show ?case
  proof (cases "function (int location)")
    case (Inl e)
    with pair Cons.prems show ?thesis by auto
  next
    case (Inr new_location)
    define next_mapping where
      "next_mapping = AList.update (int location) (v_color_string (heap vertex)) color_mapping"
    have keys: "fst ` set next_mapping = {int location} \<union> fst ` set color_mapping"
      by (simp add: next_mapping_def dom_update)
    show ?thesis
    proof (cases "py_setitem current new_location vertex")
      case (Inl e)
      with Inr pair Cons.prems have "color_mapping' = next_mapping"
        by (simp add: Let_def next_mapping_def)
      with keys pair show ?thesis by auto
    next
      case inner: (Inr current'')
      with Inr pair Cons.prems have
        "move_and_record_colors heap function pairs next_mapping current'' =
           (raised, color_mapping', current')"
        by (simp add: Let_def next_mapping_def)
      from Cons.IH [OF this] keys pair show ?thesis by auto
    qed
  qed
qed

lemma reset_positions_loop_place_all:
  assumes "\<forall>vertex \<in> set vertices.
      0 \<le> v_vertex_id (heap vertex) \<and> v_vertex_id (heap vertex) < int (length current)"
  shows "reset_positions_loop heap vertices current =
     (None, place_all (map (\<lambda>vertex. (nat (v_vertex_id (heap vertex)), vertex)) vertices) current)"
  using assms
proof (induction vertices arbitrary: current)
  case Nil
  show ?case by simp
next
  case (Cons vertex vertices)
  then have here: "0 \<le> v_vertex_id (heap vertex)" "nat (v_vertex_id (heap vertex)) < length current"
    by auto
  then have set: "py_setitem current (v_vertex_id (heap vertex)) vertex =
      Inr (current[nat (v_vertex_id (heap vertex)) := vertex])"
    using py_setitem_in_range [of "nat (v_vertex_id (heap vertex))" current vertex] by simp
  from Cons.prems have "\<forall>vertex' \<in> set vertices. 0 \<le> v_vertex_id (heap vertex') \<and>
      v_vertex_id (heap vertex') < int (length (current[nat (v_vertex_id (heap vertex)) := vertex]))"
    by simp
  from Cons.IH [OF this] set show ?case by simp
qed

section \<open>Bit strings and the numbers they denote\<close>

lemma place_all_enumerate:
  assumes len: "length current = length xs"
    and range: "\<forall>i<length xs. target i < length xs"
    and inj: "inj_on target {..<length xs}"
    and i: "i < length xs"
  shows "place_all (map (\<lambda>(location, vertex). (target location, vertex)) (enumerate 0 xs)) current
           ! target i = xs ! i"
proof (rule place_all_assigned)
  have "map fst (map (\<lambda>(location, vertex). (target location, vertex)) (enumerate 0 xs)) =
      map target [0..<length xs]"
    by (rule nth_equalityI) (simp_all add: enumerate_eq_zip case_prod_unfold)
  moreover have "distinct (map target [0..<length xs])"
    using inj by (simp add: distinct_map atLeast0LessThan)
  ultimately show "distinct (map fst (map (\<lambda>(location, vertex). (target location, vertex))
      (enumerate 0 xs)))" by simp
  from i have "(i, xs ! i) \<in> set (enumerate 0 xs)"
    by (simp add: in_set_enumerate_eq)
  then show "(target i, xs ! i) \<in>
      set (map (\<lambda>(location, vertex). (target location, vertex)) (enumerate 0 xs))"
    by force
  from range i len show "target i < length current" by simp
qed

lemma bits_value_snoc: "bits_value (bits @ [c]) = 2 * bits_value bits + int_of_bit c"
  by (simp add: bits_value_def push_bit_eq_mult)

lemma bits_value_Nil [simp]: "bits_value [] = 0"
  by (simp add: bits_value_def)

lemma int_of_bit_bit_char [simp]: "int_of_bit (bit_char b) = of_bool b"
  by (simp add: int_of_bit_def bit_char_def)

lemma bits_value_bounds: "0 \<le> bits_value bits \<and> bits_value bits < 2 ^ length bits"
proof (induction bits rule: rev_induct)
  case Nil
  show ?case by simp
next
  case (snoc c bits)
  have "0 \<le> int_of_bit c" "int_of_bit c \<le> 1" by (simp_all add: int_of_bit_def)
  with snoc show ?case by (simp add: bits_value_snoc)
qed

lemma bits_value_big_endian_bits:
  "n < 2 ^ d \<Longrightarrow> bits_value (big_endian_bits d n) = int n"
proof (induction d arbitrary: n)
  case 0
  then show ?case by (simp add: big_endian_bits_def)
next
  case (Suc d)
  then have "n div 2 < 2 ^ d" by auto
  from Suc.IH [OF this] have "bits_value (big_endian_bits d (n div 2)) = int (n div 2)" .
  moreover have "2 * int (n div 2) + of_bool (odd n) = int n"
    by (cases "odd n") (auto elim: oddE)
  ultimately show ?case by (simp add: big_endian_bits_Suc bits_value_snoc)
qed

lemma big_endian_bits_bits_value:
  assumes "list_all (\<lambda>c. c = CHR ''0'' \<or> c = CHR ''1'') bits"
  shows "big_endian_bits (length bits) (nat (bits_value bits)) = bits"
  using assms
proof (induction bits rule: rev_induct)
  case Nil
  show ?case by (simp add: big_endian_bits_def)
next
  case (snoc c bits)
  then have c: "c = CHR ''0'' \<or> c = CHR ''1''" and ih:
    "big_endian_bits (length bits) (nat (bits_value bits)) = bits" by simp_all
  have nonneg: "0 \<le> bits_value bits" by (simp add: bits_value_bounds)
  define n where "n = nat (bits_value bits)"
  with nonneg have val: "bits_value bits = int n" by simp
  have "nat (2 * int n + int_of_bit c) = 2 * n + (if c = CHR ''1'' then 1 else 0)"
    by (simp add: int_of_bit_def nat_add_distrib nat_mult_distrib)
  moreover have "(2 * n + (if c = CHR ''1'' then 1 else 0)) div 2 = n" by simp
  moreover have "bit_char (odd (2 * n + (if c = CHR ''1'' then 1 else 0))) = c"
    using c by (auto simp: bit_char_def)
  ultimately show ?case using ih
    by (simp add: bits_value_snoc big_endian_bits_Suc val n_def [symmetric])
qed

lemma big_endian_bits_are_bits:
  "list_all (\<lambda>c. c = CHR ''0'' \<or> c = CHR ''1'') (big_endian_bits d n)"
  by (auto simp: big_endian_bits_def list_all_iff bit_char_def)

lemma bit_string_to_int_bits_value:
  "BIT_STRING_PATTERN bits \<Longrightarrow> bit_string_to_int bits = Inr (bits_value bits)"
  by (simp add: bit_string_to_int_def bits_value_def)

lemma gather_bits_in_range:
  assumes "\<forall>i \<in> set indices. i < length bit_string"
  shows "gather_bits bit_string (map int indices) acc =
     Inr (acc @ map (\<lambda>i. bit_string ! i) indices)"
  using assms by (induction indices arbitrary: acc) (simp_all add: py_getitem_nth)

section \<open>Index lists that permute the bits\<close>

lemma covering_index_list:
  assumes len: "length indices = d" and cover: "\<forall>i<d. int i \<in> set indices"
  shows "set indices = int ` {..<d}"
proof (rule sym, rule card_seteq)
  show "finite (set indices)" by simp
  from cover show "int ` {..<d} \<subseteq> set indices" by auto
  have "card (set indices) \<le> length indices" by (rule card_length)
  also have "\<dots> = card (int ` {..<d})" by (simp add: len card_image)
  finally show "card (set indices) \<le> card (int ` {..<d})" .
qed

lemma permute_bits_checks:
  assumes len: "length indices = d" and cover: "\<forall>i<d. int i \<in> set indices"
  shows "permute_bits_by_index_list number indices (int d) =
     (case int_to_bit_string number (int d) of
        Inl e \<Rightarrow> Inl e
      | Inr bit_string \<Rightarrow>
          (case gather_bits bit_string indices [] of
             Inl e \<Rightarrow> Inl e
           | Inr permuted \<Rightarrow> bit_string_to_int permuted))"
  using assms by (simp add: permute_bits_by_index_list_def py_range_int list_all_iff)

lemma permute_bits_result:
  assumes d: "1 \<le> d" and len: "length indices = d" and cover: "\<forall>i<d. int i \<in> set indices"
    and n: "n < 2 ^ d"
  shows "permute_bits_by_index_list (int n) indices (int d) =
     Inr (bits_value (map (\<lambda>i. big_endian_bits d n ! nat i) indices))"
proof -
  let ?s = "big_endian_bits d n"
  from covering_index_list [OF len cover] have set: "set indices = int ` {..<d}" .
  then have "\<forall>i \<in> set indices. int (nat i) = i" by auto
  then have "map (\<lambda>i. int (nat i)) indices = indices" by (simp add: map_idI)
  then have indices: "indices = map int (map nat indices)" by (simp add: comp_def)
  from set have small: "\<forall>i \<in> set (map nat indices). i < length ?s" by auto
  from n have "int n < 2 ^ d" by (metis of_nat_less_iff of_nat_numeral of_nat_power)
  then have string: "int_to_bit_string (int n) (int d) = Inr ?s"
    using int_to_bit_string_big_endian [OF d, of "int n"] by simp
  have "gather_bits ?s (map int (map nat indices)) [] =
      Inr ([] @ map (\<lambda>i. ?s ! i) (map nat indices))"
    using small by (rule gather_bits_in_range)
  with indices have gathered: "gather_bits ?s indices [] = Inr (map (\<lambda>i. ?s ! nat i) indices)"
    by (simp add: comp_def)
  have "\<forall>i \<in> set indices. ?s ! nat i = CHR ''0'' \<or> ?s ! nat i = CHR ''1''"
    using set by (auto simp: nth_big_endian_bits bit_char_def)
  moreover from d len have "indices \<noteq> []" by auto
  ultimately have "BIT_STRING_PATTERN (map (\<lambda>i. ?s ! nat i) indices)"
    by (simp add: BIT_STRING_PATTERN_def list_all_iff)
  from bit_string_to_int_bits_value [OF this] string gathered show ?thesis
    by (simp add: permute_bits_checks [OF len cover])
qed

lemma permuted_number_bound:
  "length indices = d \<Longrightarrow> permuted_number d indices n < 2 ^ d"
proof -
  assume "length indices = d"
  with bits_value_bounds [of "map (\<lambda>i. big_endian_bits d n ! nat i) indices"]
  have "0 \<le> bits_value (map (\<lambda>i. big_endian_bits d n ! nat i) indices)"
    "bits_value (map (\<lambda>i. big_endian_bits d n ! nat i) indices) < 2 ^ d"
    by simp_all
  then show ?thesis
    unfolding permuted_number_def by (simp add: nat_less_iff)
qed

lemma permuted_number_inj:
  assumes len: "length indices = d" and cover: "\<forall>i<d. int i \<in> set indices"
  shows "inj_on (permuted_number d indices) {..<2 ^ d}"
proof (rule inj_onI)
  fix n m assume n: "n \<in> {..<(2::nat) ^ d}" and m: "m \<in> {..<(2::nat) ^ d}"
    and same: "permuted_number d indices n = permuted_number d indices m"
  let ?p = "\<lambda>n. map (\<lambda>i. big_endian_bits d n ! nat i) indices"
  from covering_index_list [OF len cover] have set: "set indices = int ` {..<d}" .
  have bits: "list_all (\<lambda>c. c = CHR ''0'' \<or> c = CHR ''1'') (?p k)" for k
    using set by (auto simp: list_all_iff nth_big_endian_bits bit_char_def)
  have "bits_value (?p n) = bits_value (?p m)"
    using same bits_value_bounds [of "?p n"] bits_value_bounds [of "?p m"]
    unfolding permuted_number_def by linarith
  then have "big_endian_bits (length (?p n)) (nat (bits_value (?p n))) =
      big_endian_bits (length (?p m)) (nat (bits_value (?p m)))"
    by simp
  then have strings: "?p n = ?p m"
    by (simp only: big_endian_bits_bits_value [OF bits])
  have "big_endian_bits d n = big_endian_bits d m"
  proof (rule nth_equalityI)
    show "length (big_endian_bits d n) = length (big_endian_bits d m)" by simp
    fix i assume "i < length (big_endian_bits d n)"
    then have "int i \<in> set indices" using cover by simp
    with strings show "big_endian_bits d n ! i = big_endian_bits d m ! i"
      by (auto dest!: bspec [where x = "int i"])
  qed
  then have "bits_value (big_endian_bits d n) = bits_value (big_endian_bits d m)" by simp
  with n m show "n = m" by (simp add: bits_value_big_endian_bits)
qed

lemma permute_bits_Inr_valid:
  assumes "permute_bits_by_index_list number indices dimension = Inr y"
  shows "1 \<le> dimension \<and> int (length indices) = dimension \<and>
     (\<forall>i<nat dimension. int i \<in> set indices)"
proof -
  from assms have nonneg: "0 \<le> dimension" and len: "int (length indices) = dimension"
    and all: "list_all (\<lambda>i. i \<in> set indices) (py_range dimension)"
    by (auto simp: permute_bits_by_index_list_def split: if_splits)
  from nonneg have "dimension = int (nat dimension)" by simp
  with all have "list_all (\<lambda>i. i \<in> set indices) (map int [0..<nat dimension])"
    by (metis py_range_int)
  then have cover: "\<forall>i<nat dimension. int i \<in> set indices"
    by (simp add: list_all_iff)
  have "dimension \<noteq> 0"
  proof
    assume "dimension = 0"
    with len have "indices = []" by simp
    with assms \<open>dimension = 0\<close> show False
      by (simp add: permute_bits_by_index_list_def py_range_def int_to_bit_string_def
          bit_string_to_int_def BIT_STRING_PATTERN_def split: if_splits)
  qed
  with nonneg len cover show ?thesis by simp
qed

section \<open>Arrangements and colors\<close>

lemma same_arrangement_refl [simp]: "same_arrangement a a"
  by (simp add: same_arrangement_def)

lemma same_arrangement_trans:
  "same_arrangement a b \<Longrightarrow> same_arrangement b c \<Longrightarrow> same_arrangement a c"
  by (simp add: same_arrangement_def)

lemma same_arrangement_invariant:
  "same_arrangement a b \<Longrightarrow> vertex_set_invariant a = vertex_set_invariant b"
  by (simp add: same_arrangement_def vertex_set_invariant_def location_ids_def)

lemma color_by_id_same_arrangement:
  "same_arrangement (snd (color_by_id self vertex_id color_string)) self"
  by (simp add: same_arrangement_def color_by_id_frame)

lemma color_vertices_by_id_list_same_arrangement:
  "same_arrangement (snd (color_vertices_by_id_list self vertex_ids color_string)) self"
  using color_vertices_by_id_list_frame [of self vertex_ids color_string]
  by (simp add: same_arrangement_def)

lemma lookup_id_by_location_in_range:
  "location < length (vs_vertices self) \<Longrightarrow>
     lookup_id_by_location self (int location) =
       Some (v_vertex_id (vs_heap self (vs_vertices self ! location)))"
  by (simp add: lookup_id_by_location_def lookup_vertex_by_location_def py_getitem_nth)

lemma lookup_vertex_by_id_present:
  assumes "location < length (vs_vertices self)"
  shows "lookup_vertex_by_id self (v_vertex_id (vs_heap self (vs_vertices self ! location))) \<noteq> None"
proof -
  let ?P = "\<lambda>(location', vertex).
      v_vertex_id (vs_heap self (vs_vertices self ! location)) = v_vertex_id (vs_heap self vertex)"
  from assms have "(location, vs_vertices self ! location) \<in> set (enumerate 0 (vs_vertices self))"
    by (simp add: in_set_enumerate_eq)
  then have "\<exists>x \<in> set (enumerate 0 (vs_vertices self)). ?P x" by force
  then have "find ?P (enumerate 0 (vs_vertices self)) \<noteq> None"
    unfolding find_None_iff by blast
  then show ?thesis
    by (auto simp: lookup_vertex_by_id_def lookup_location_by_id_def)
qed

lemma color_by_location_same_arrangement:
  "same_arrangement (snd (color_by_location self location color_string)) self"
  by (simp add: color_by_location_def color_by_id_same_arrangement split: option.splits)

lemma color_by_location_in_range:
  assumes "0 \<le> location" and "location < int (length (vs_vertices self))"
  shows "fst (color_by_location self location color_string) = None"
proof -
  from assms have "nat location < length (vs_vertices self)" by simp
  from lookup_id_by_location_in_range [OF this] lookup_vertex_by_id_present [OF this] assms(1)
  show ?thesis
    by (auto simp: color_by_location_def color_by_id_def)
qed

lemma recolor_locations_same_arrangement:
  "same_arrangement (snd (recolor_locations self color_mapping)) self"
proof (induction color_mapping arbitrary: self)
  case Nil
  show ?case by simp
next
  case (Cons entry color_mapping)
  obtain location color_string where entry: "entry = (location, color_string)" by (cases entry)
  obtain raised self' where step: "color_by_location self location color_string = (raised, self')"
    by (cases "color_by_location self location color_string")
  with color_by_location_same_arrangement [of self location color_string]
  have same: "same_arrangement self' self" by simp
  show ?case
  proof (cases raised)
    case None
    from same_arrangement_trans [OF Cons.IH [of self'] same] None step entry
    show ?thesis by simp
  next
    case (Some e)
    with same step entry show ?thesis by simp
  qed
qed

lemma recolor_locations_in_range:
  assumes "\<forall>location \<in> fst ` set color_mapping.
      0 \<le> location \<and> location < int (length (vs_vertices self))"
  shows "fst (recolor_locations self color_mapping) = None"
  using assms
proof (induction color_mapping arbitrary: self)
  case Nil
  show ?case by simp
next
  case (Cons entry color_mapping)
  obtain location color_string where entry: "entry = (location, color_string)" by (cases entry)
  with Cons.prems have here: "0 \<le> location" "location < int (length (vs_vertices self))"
    by auto
  define self' where "self' = snd (color_by_location self location color_string)"
  from color_by_location_in_range [OF here, of color_string]
  have step: "color_by_location self location color_string = (None, self')"
    by (simp add: self'_def prod_eq_iff)
  from color_by_location_same_arrangement [of self location color_string]
  have "vs_vertices self' = vs_vertices self"
    by (simp add: self'_def same_arrangement_def)
  with Cons.prems have "\<forall>location \<in> fst ` set color_mapping.
      0 \<le> location \<and> location < int (length (vs_vertices self'))" by simp
  from Cons.IH [OF this] step entry show ?case by simp
qed

section \<open>Moving every vertex\<close>

lemma moved_by_same_arrangement:
  "moved_by target before middle \<Longrightarrow> same_arrangement after middle \<Longrightarrow>
     moved_by target before after"
  by (simp add: moved_by_def same_arrangement_def)

lemma map_to_locations_loop_bijection:
  assumes f: "\<forall>i<length vertices.
      function (int i) = Inr (int (target i)) \<and> target i < length vertices"
    and inj: "inj_on target {..<length vertices}"
  shows "\<exists>current. map_to_locations_loop function (enumerate 0 vertices) vertices = (None, current) \<and>
     length current = length vertices \<and> (\<forall>i<length vertices. current ! target i = vertices ! i)"
proof -
  let ?assignments = "map (\<lambda>(location, vertex). (target location, vertex)) (enumerate 0 vertices)"
  have "\<forall>(location, vertex) \<in> set (enumerate 0 vertices).
      function (int location) = Inr (int (target location)) \<and> target location < length vertices"
    using f by (auto simp: in_set_enumerate_eq)
  then have "map_to_locations_loop function (enumerate 0 vertices) vertices =
      (None, place_all ?assignments vertices)"
    by (rule map_to_locations_loop_place_all)
  moreover have "\<forall>i<length vertices. place_all ?assignments vertices ! target i = vertices ! i"
    using place_all_enumerate [of vertices vertices target] f inj by simp
  ultimately show ?thesis by simp
qed

lemma map_to_locations_moves:
  assumes f: "\<forall>i<length (vs_vertices self).
      function (int i) = Inr (int (target i)) \<and> target i < length (vs_vertices self)"
    and inj: "inj_on target {..<length (vs_vertices self)}"
  shows "fst (map_to_locations self function) = None \<and>
     moved_by target self (snd (map_to_locations self function))"
proof -
  from map_to_locations_loop_bijection [OF f inj] obtain current where
    "map_to_locations_loop function (enumerate 0 (vs_vertices self)) (vs_vertices self) =
       (None, current)"
    "length current = length (vs_vertices self)"
    "\<forall>i<length (vs_vertices self). current ! target i = vs_vertices self ! i"
    by blast
  then show ?thesis by (simp add: map_to_locations_def moved_by_def)
qed

lemma map_to_locations_not_colors_moves:
  assumes f: "\<forall>i<length (vs_vertices self).
      function (int i) = Inr (int (target i)) \<and> target i < length (vs_vertices self)"
    and inj: "inj_on target {..<length (vs_vertices self)}"
  shows "fst (map_to_locations_not_colors self function) = None \<and>
     moved_by target self (snd (map_to_locations_not_colors self function))"
proof -
  from map_to_locations_loop_bijection [OF f inj] obtain current where
    loop: "map_to_locations_loop function (enumerate 0 (vs_vertices self)) (vs_vertices self) =
       (None, current)"
    and len: "length current = length (vs_vertices self)"
    and nth: "\<forall>i<length (vs_vertices self). current ! target i = vs_vertices self ! i"
    by blast
  obtain raised color_mapping current' where
    first: "move_and_record_colors (vs_heap self) function (enumerate 0 (vs_vertices self)) []
        (vs_vertices self) = (raised, color_mapping, current')"
    by (cases "move_and_record_colors (vs_heap self) function (enumerate 0 (vs_vertices self)) []
        (vs_vertices self)")
  with move_and_record_colors_moves [of "vs_heap self" "function"
      "enumerate 0 (vs_vertices self)" "[]" "vs_vertices self"] loop
  have raised: "raised = None" and current': "current' = current" by simp_all
  from move_and_record_colors_keys [OF first]
  have keys: "\<forall>location \<in> fst ` set color_mapping.
      0 \<le> location \<and> location < int (length (vs_vertices self))"
    by (auto simp: in_set_enumerate_eq)
  define middle where "middle = self\<lparr>vs_vertices := current\<rparr>"
  have middle: "moved_by target self middle"
    using len nth by (simp add: moved_by_def middle_def)
  have run: "map_to_locations_not_colors self function = recolor_locations middle color_mapping"
    using first raised current' by (simp add: map_to_locations_not_colors_def middle_def)
  from keys len have "\<forall>location \<in> fst ` set color_mapping.
      0 \<le> location \<and> location < int (length (vs_vertices middle))"
    by (simp add: middle_def)
  from recolor_locations_in_range [OF this]
    moved_by_same_arrangement [OF middle recolor_locations_same_arrangement [of middle color_mapping]]
  show ?thesis by (simp add: run)
qed

lemma moves_raise_at_first_location:
  assumes "function 0 = Inl e"
  shows "snd (map_to_locations self function) = self"
    and "snd (map_to_locations_not_colors self function) = self"
proof -
  show "snd (map_to_locations self function) = self"
  proof (cases "vs_vertices self")
    case Nil
    then show ?thesis by (simp add: map_to_locations_def)
  next
    case (Cons vertex vertices)
    with assms show ?thesis by (simp add: map_to_locations_def)
  qed
  show "snd (map_to_locations_not_colors self function) = self"
  proof (cases "vs_vertices self")
    case Nil
    then show ?thesis by (simp add: map_to_locations_not_colors_def)
  next
    case (Cons vertex vertices)
    with assms show ?thesis by (simp add: map_to_locations_not_colors_def)
  qed
qed

lemma invariant_after_move:
  assumes inv: "vertex_set_invariant before" and moved: "moved_by target before after"
    and range: "\<forall>i<length (vs_vertices before). target i < length (vs_vertices before)"
  shows "vertex_set_invariant after"
proof -
  let ?n = "length (vs_vertices before)"
  from moved have dim: "vs_dimension after = vs_dimension before"
    and ids: "\<And>vertex. v_vertex_id (vs_heap after vertex) = v_vertex_id (vs_heap before vertex)"
    and len: "length (vs_vertices after) = ?n"
    and nth: "\<And>i. i < ?n \<Longrightarrow> vs_vertices after ! target i = vs_vertices before ! i"
    by (simp_all add: moved_by_def)
  from inv have n: "?n = 2 ^ nat (vs_dimension before)"
    and all: "set (location_ids before) = {0..<2 ^ nat (vs_dimension before)}"
    by (simp_all add: vertex_set_invariant_def)
  have "set (location_ids before) \<subseteq> set (location_ids after)"
  proof
    fix x assume "x \<in> set (location_ids before)"
    then obtain i where i: "i < ?n" and x: "x = v_vertex_id (vs_heap before (vs_vertices before ! i))"
      by (auto simp: location_ids_def in_set_conv_nth)
    from range i len have "target i < length (vs_vertices after)" by simp
    then have "v_vertex_id (vs_heap after (vs_vertices after ! target i)) \<in> set (location_ids after)"
      by (simp add: location_ids_def)
    with nth [OF i] ids x show "x \<in> set (location_ids after)" by simp
  qed
  moreover have "card (set (location_ids after)) \<le> card (set (location_ids before))"
  proof -
    have "card (set (location_ids after)) \<le> length (location_ids after)" by (rule card_length)
    also have "\<dots> = ?n" by (simp add: location_ids_def len)
    also have "\<dots> = card (set (location_ids before))" by (simp add: all n)
    finally show ?thesis .
  qed
  ultimately have "set (location_ids before) = set (location_ids after)"
    by (intro card_seteq) simp_all
  with inv dim len n show ?thesis by (simp add: vertex_set_invariant_def)
qed

section \<open>Reflection and rotation\<close>

lemma truncate_within_dimension_range:
  assumes "0 \<le> dimension"
  shows "\<exists>flips. truncate_within_dimension bit_mask dimension = Inr flips \<and>
     0 \<le> flips \<and> flips < 2 ^ nat dimension"
proof -
  have "(0::int) \<le> 2 ^ nat dimension - 1" by simp
  then have "0 \<le> bit_mask AND (2 ^ nat dimension - 1)"
    "bit_mask AND (2 ^ nat dimension - 1) \<le> 2 ^ nat dimension - 1"
    by (simp_all del: and_nonnegative_int_iff add: and_nonnegative_int_iff [of bit_mask])
  with assms show ?thesis by (simp add: truncate_within_dimension_def)
qed

lemma flip_target:
  assumes "0 \<le> flips" and "flips < 2 ^ d" and "i < 2 ^ d"
  shows "int (nat (int i XOR flips)) = int i XOR flips" and "nat (int i XOR flips) < 2 ^ d"
    and "nat (int (nat (int i XOR flips)) XOR flips) = i"
proof -
  from assms(3) have "int i < 2 ^ d" by (metis of_nat_less_iff of_nat_numeral of_nat_power)
  with XOR_upper [of "int i" d flips] assms(2) have upper: "int i XOR flips < 2 ^ d" by simp
  from assms(1) have lower: "0 \<le> int i XOR flips" by simp
  from lower show 1: "int (nat (int i XOR flips)) = int i XOR flips" by simp
  from lower upper show "nat (int i XOR flips) < 2 ^ d" by (simp add: nat_less_iff)
  show "nat (int (nat (int i XOR flips)) XOR flips) = i"
    unfolding 1 by (simp add: xor.assoc)
qed

lemma reflect_moves:
  assumes dim: "0 \<le> vs_dimension self"
    and len: "length (vs_vertices self) = 2 ^ nat (vs_dimension self)"
  shows "\<exists>flips. truncate_within_dimension bit_mask (vs_dimension self) = Inr flips \<and>
     0 \<le> flips \<and> flips < 2 ^ nat (vs_dimension self) \<and>
     fst (reflect self bit_mask preserve_colors) = None \<and>
     moved_by (\<lambda>i. nat (int i XOR flips)) self (snd (reflect self bit_mask preserve_colors))"
proof -
  from truncate_within_dimension_range [OF dim, of bit_mask] obtain flips where
    flips: "truncate_within_dimension bit_mask (vs_dimension self) = Inr flips"
    and range: "0 \<le> flips" "flips < 2 ^ nat (vs_dimension self)"
    by blast
  let ?target = "\<lambda>i. nat (int i XOR flips)"
  let ?relocate = "\<lambda>location. Inr (location XOR flips) :: error + int"
  have f: "\<forall>i<length (vs_vertices self).
      ?relocate (int i) = Inr (int (?target i)) \<and> ?target i < length (vs_vertices self)"
    using flip_target(1,2) [OF range] by (simp add: len)
  have inj: "inj_on ?target {..<length (vs_vertices self)}"
  proof (rule inj_on_inverseI [of _ ?target])
    fix i assume "i \<in> {..<length (vs_vertices self)}"
    with len have "i < 2 ^ nat (vs_dimension self)" by simp
    from flip_target(3) [OF range this] show "?target (?target i) = i" .
  qed
  from map_to_locations_moves [of self ?relocate ?target, OF f inj]
    map_to_locations_not_colors_moves [of self ?relocate ?target, OF f inj] flips
  have "fst (reflect self bit_mask preserve_colors) = None \<and>
      moved_by ?target self (snd (reflect self bit_mask preserve_colors))"
    by (simp add: reflect_def Let_def)
  with flips range show ?thesis by blast
qed

lemma reflect_invariant:
  assumes "vertex_set_invariant self"
  shows "vertex_set_invariant (snd (reflect self bit_mask preserve_colors))"
proof -
  from assms have dim: "0 \<le> vs_dimension self"
    and len: "length (vs_vertices self) = 2 ^ nat (vs_dimension self)"
    by (simp_all add: vertex_set_invariant_def)
  from reflect_moves [OF dim len, of bit_mask preserve_colors] obtain flips where
    range: "0 \<le> flips" "flips < 2 ^ nat (vs_dimension self)"
    and moved: "moved_by (\<lambda>i. nat (int i XOR flips)) self (snd (reflect self bit_mask preserve_colors))"
    by blast
  from flip_target(2) [OF range] len
  have "\<forall>i<length (vs_vertices self). nat (int i XOR flips) < length (vs_vertices self)" by simp
  from invariant_after_move [OF assms moved this] show ?thesis .
qed

lemma VertexSet_rotate_moves:
  assumes d: "1 \<le> vs_dimension self"
    and len: "length (vs_vertices self) = 2 ^ nat (vs_dimension self)"
    and indices: "int (length rotation_list) = vs_dimension self"
    and cover: "\<forall>i<nat (vs_dimension self). int i \<in> set rotation_list"
  shows "fst (VertexSet_rotate self rotation_list preserve_colors) = None \<and>
     moved_by (permuted_number (nat (vs_dimension self)) rotation_list) self
       (snd (VertexSet_rotate self rotation_list preserve_colors))"
proof -
  define n where "n = nat (vs_dimension self)"
  with d indices have n: "1 \<le> n" "length rotation_list = n" "vs_dimension self = int n" by simp_all
  let ?target = "permuted_number n rotation_list"
  let ?relocate = "\<lambda>location. permute_bits_by_index_list location rotation_list (vs_dimension self)"
  have f: "\<forall>i<length (vs_vertices self).
      ?relocate (int i) = Inr (int (?target i)) \<and> ?target i < length (vs_vertices self)"
  proof (intro allI impI)
    fix i assume "i < length (vs_vertices self)"
    with len have i: "i < 2 ^ n" by (simp add: n_def)
    from cover have cover': "\<forall>i<n. int i \<in> set rotation_list" by (simp add: n_def)
    have "0 \<le> bits_value (map (\<lambda>j. big_endian_bits n i ! nat j) rotation_list)"
      by (simp add: bits_value_bounds)
    with permute_bits_result [OF n(1,2) cover' i] permuted_number_bound [OF n(2), of i] len
    show "?relocate (int i) = Inr (int (?target i)) \<and> ?target i < length (vs_vertices self)"
      by (simp add: n(3) permuted_number_def n_def [symmetric])
  qed
  have inj: "inj_on ?target {..<length (vs_vertices self)}"
    using permuted_number_inj [OF n(2)] cover len by (simp add: n_def)
  from map_to_locations_moves [of self ?relocate ?target, OF f inj]
    map_to_locations_not_colors_moves [of self ?relocate ?target, OF f inj]
  show ?thesis by (simp add: VertexSet_rotate_def Let_def n_def)
qed

lemma VertexSet_rotate_invariant:
  assumes "vertex_set_invariant self"
  shows "vertex_set_invariant (snd (VertexSet_rotate self rotation_list preserve_colors))"
proof (cases "permute_bits_by_index_list 0 rotation_list (vs_dimension self)")
  case (Inl e)
  from moves_raise_at_first_location [of
      "\<lambda>location. permute_bits_by_index_list location rotation_list (vs_dimension self)" e self] Inl
  have "snd (VertexSet_rotate self rotation_list preserve_colors) = self"
    by (simp add: VertexSet_rotate_def Let_def)
  with assms show ?thesis by simp
next
  case (Inr y)
  from permute_bits_Inr_valid [OF this] have valid: "1 \<le> vs_dimension self"
    "int (length rotation_list) = vs_dimension self"
    "\<forall>i<nat (vs_dimension self). int i \<in> set rotation_list" by simp_all
  from assms have len: "length (vs_vertices self) = 2 ^ nat (vs_dimension self)"
    by (simp add: vertex_set_invariant_def)
  from VertexSet_rotate_moves [OF valid(1) len valid(2,3), of preserve_colors]
  have moved: "moved_by (permuted_number (nat (vs_dimension self)) rotation_list) self
       (snd (VertexSet_rotate self rotation_list preserve_colors))" by simp
  from valid(2) have "length rotation_list = nat (vs_dimension self)" by simp
  from permuted_number_bound [OF this] len
  have "\<forall>i<length (vs_vertices self).
      permuted_number (nat (vs_dimension self)) rotation_list i < length (vs_vertices self)"
    by simp
  from invariant_after_move [OF assms moved this] show ?thesis .
qed

section \<open>Reset and construction\<close>

lemma invariant_ids:
  assumes "vertex_set_invariant self"
  shows "distinct (location_ids self)"
    and "\<forall>vertex \<in> set (vs_vertices self). 0 \<le> v_vertex_id (vs_heap self vertex) \<and>
      v_vertex_id (vs_heap self vertex) < int (length (vs_vertices self))"
proof -
  let ?n = "(2::nat) ^ nat (vs_dimension self)"
  from assms have len: "length (vs_vertices self) = ?n"
    and all: "set (location_ids self) = {0..<2 ^ nat (vs_dimension self)}"
    by (simp_all add: vertex_set_invariant_def)
  have "card (set (location_ids self)) = card {0..<(2::int) ^ nat (vs_dimension self)}"
    by (simp only: all)
  moreover have "length (location_ids self) = ?n" by (simp add: location_ids_def len)
  ultimately have "card (set (location_ids self)) = length (location_ids self)" by simp
  then show "distinct (location_ids self)" by (rule card_distinct)
  have "v_vertex_id (vs_heap self vertex) \<in> set (location_ids self)"
    if "vertex \<in> set (vs_vertices self)" for vertex
    using that by (simp add: location_ids_def)
  with all len show "\<forall>vertex \<in> set (vs_vertices self). 0 \<le> v_vertex_id (vs_heap self vertex) \<and>
      v_vertex_id (vs_heap self vertex) < int (length (vs_vertices self))"
    by simp
qed

lemma reset_positions_result:
  assumes "vertex_set_invariant self"
  shows "fst (reset_positions self) = None \<and>
     location_ids (snd (reset_positions self)) = map int [0..<length (vs_vertices self)] \<and>
     vs_dimension (snd (reset_positions self)) = vs_dimension self \<and>
     vs_heap (snd (reset_positions self)) = vs_heap self"
proof -
  let ?id = "\<lambda>vertex. v_vertex_id (vs_heap self vertex)"
  let ?assignments = "map (\<lambda>vertex. (nat (?id vertex), vertex)) (vs_vertices self)"
  let ?current = "place_all ?assignments (vs_vertices self)"
  note ids = invariant_ids [OF assms]
  from reset_positions_loop_place_all [of "vs_vertices self" "vs_heap self" "vs_vertices self"] ids(2)
  have run: "reset_positions self = (None, self\<lparr>vs_vertices := ?current\<rparr>)"
    by (simp add: reset_positions_def)
  have "inj_on nat (set (location_ids self))"
  proof (rule inj_onI)
    fix x y assume "x \<in> set (location_ids self)" "y \<in> set (location_ids self)" "nat x = nat y"
    moreover from assms have "set (location_ids self) = {0..<2 ^ nat (vs_dimension self)}"
      by (simp add: vertex_set_invariant_def)
    ultimately have "0 \<le> x" "0 \<le> y" "nat x = nat y" by simp_all
    then show "x = y" by linarith
  qed
  with ids(1) have "distinct (map nat (location_ids self))"
    by (simp add: distinct_map)
  then have distinct: "distinct (map fst ?assignments)"
    by (simp add: location_ids_def comp_def)
  from assms have all: "set (location_ids self) = {0..<int (length (vs_vertices self))}"
    by (simp add: vertex_set_invariant_def)
  have "?id (?current ! k) = int k" if "k < length (vs_vertices self)" for k
  proof -
    from that all have "int k \<in> set (location_ids self)" by simp
    then obtain vertex where vertex: "vertex \<in> set (vs_vertices self)" "?id vertex = int k"
      by (auto simp: location_ids_def)
    then have "(k, vertex) \<in> set ?assignments" by force
    from place_all_assigned [OF distinct this that] vertex(2) show ?thesis by simp
  qed
  then have "location_ids (self\<lparr>vs_vertices := ?current\<rparr>) = map int [0..<length (vs_vertices self)]"
    by (intro nth_equalityI) (simp_all add: location_ids_def)
  with run show ?thesis by simp
qed

lemma reset_positions_invariant:
  assumes "vertex_set_invariant self"
  shows "vertex_set_invariant (snd (reset_positions self))"
proof -
  from reset_positions_result [OF assms] have
    ids: "location_ids (snd (reset_positions self)) = map int [0..<length (vs_vertices self)]"
    and dim: "vs_dimension (snd (reset_positions self)) = vs_dimension self" by simp_all
  from ids have "length (location_ids (snd (reset_positions self))) = length (vs_vertices self)"
    by simp
  then have len: "length (vs_vertices (snd (reset_positions self))) = length (vs_vertices self)"
    by (simp add: location_ids_def)
  from assms have n: "length (vs_vertices self) = 2 ^ nat (vs_dimension self)"
    "0 \<le> vs_dimension self"
    by (simp_all add: vertex_set_invariant_def)
  have "set (map int [0..<length (vs_vertices self)]) = {0..<int (length (vs_vertices self))}"
    using image_int_atLeastLessThan [of 0 "length (vs_vertices self)"] by simp
  with ids dim len n show ?thesis by (simp add: vertex_set_invariant_def)
qed

lemma VertexSet_init_invariant:
  assumes "0 \<le> dimension"
  shows "vertex_set_invariant (VertexSet_init dimension)"
proof -
  have "[0..(2::int) ^ nat dimension - 1] = map int [0..<2 ^ nat dimension]"
    using py_range_int [of "2 ^ nat dimension"] by (simp add: py_range_def)
  then have ids: "location_ids (VertexSet_init dimension) = [0..2 ^ nat dimension - 1]"
    using assms
    by (simp add: location_ids_def VertexSet_init_def how_many_bit_strings_def py_range_def
        Vertex_init_def comp_def Let_def)
  have "length (vs_vertices (VertexSet_init dimension)) = 2 ^ nat dimension"
    using assms
    by (simp add: VertexSet_init_def how_many_bit_strings_def py_range_def Let_def
        nat_power_eq)
  moreover have "vs_dimension (VertexSet_init dimension) = dimension"
    by (simp add: VertexSet_init_def Let_def)
  moreover have "set [0..(2::int) ^ nat dimension - 1] = {0..<2 ^ nat dimension}" by auto
  ultimately show ?thesis using assms ids by (simp add: vertex_set_invariant_def)
qed

section \<open>The invariant of a cube\<close>

lemma map_to_locations_dimension:
  "vs_dimension (snd (map_to_locations self function)) = vs_dimension self"
  by (simp add: map_to_locations_def Let_def case_prod_unfold)

lemma map_to_locations_not_colors_dimension:
  "vs_dimension (snd (map_to_locations_not_colors self function)) = vs_dimension self"
proof -
  have "vs_dimension (snd (recolor_locations (self\<lparr>vs_vertices := current\<rparr>) color_mapping)) =
      vs_dimension self" for current color_mapping
    using recolor_locations_same_arrangement [of "self\<lparr>vs_vertices := current\<rparr>" color_mapping]
    by (simp add: same_arrangement_def)
  then show ?thesis
    by (simp add: map_to_locations_not_colors_def split: prod.splits option.splits)
qed

lemma VertexSet_rotate_dimension:
  "vs_dimension (snd (VertexSet_rotate self rotation_list preserve_colors)) = vs_dimension self"
  by (simp add: VertexSet_rotate_def Let_def map_to_locations_dimension
      map_to_locations_not_colors_dimension)

lemma reflect_dimension:
  "vs_dimension (snd (reflect self bit_mask preserve_colors)) = vs_dimension self"
  by (simp add: reflect_def Let_def map_to_locations_dimension
      map_to_locations_not_colors_dimension split: sum.splits)

lemma reset_positions_dimension:
  "vs_dimension (snd (reset_positions self)) = vs_dimension self"
  by (simp add: reset_positions_def Let_def case_prod_unfold)

lemma apply_operation_invariant:
  assumes "cube_invariant cube"
  shows "cube_invariant (snd (apply_operation cube operation)) \<and>
     cube_dimension (snd (apply_operation cube operation)) = cube_dimension cube"
proof -
  from assms have dim: "vs_dimension (cube_vertex_set cube) = cube_dimension cube"
    and inv: "vertex_set_invariant (cube_vertex_set cube)"
    by (simp_all add: cube_invariant_def)
  show ?thesis
  proof (cases operation)
    case (Rotate rotation_list preserve_colors)
    with dim VertexSet_rotate_invariant [OF inv, of rotation_list preserve_colors]
      VertexSet_rotate_dimension [of "cube_vertex_set cube" rotation_list preserve_colors]
    show ?thesis by (simp add: cube_invariant_def Cube_rotate_def case_prod_unfold)
  next
    case (Reflect bit_mask preserve_colors)
    with dim reflect_invariant [OF inv, of bit_mask preserve_colors]
      reflect_dimension [of "cube_vertex_set cube" bit_mask preserve_colors]
    show ?thesis by (simp add: cube_invariant_def Cube_reflect_def case_prod_unfold)
  next
    case ResetPositions
    with dim reset_positions_invariant [OF inv] reset_positions_dimension [of "cube_vertex_set cube"]
    show ?thesis by (simp add: cube_invariant_def Cube_reset_positions_def case_prod_unfold)
  next
    case (ColorVertices vertex_id_list color_string)
    from color_vertices_by_id_list_same_arrangement
      [of "cube_vertex_set cube" vertex_id_list "Some color_string"]
    have same: "same_arrangement
        (snd (color_vertices_by_id_list (cube_vertex_set cube) vertex_id_list (Some color_string)))
        (cube_vertex_set cube)" .
    with dim inv same_arrangement_invariant [OF same] ColorVertices show ?thesis
      by (simp add: cube_invariant_def Cube_color_vertices_by_id_list_def same_arrangement_def
          case_prod_unfold)
  next
    case (UncolorVertices vertex_id_list)
    from color_vertices_by_id_list_same_arrangement
      [of "cube_vertex_set cube" vertex_id_list "Some []"]
    have same: "same_arrangement
        (snd (color_vertices_by_id_list (cube_vertex_set cube) vertex_id_list (Some [])))
        (cube_vertex_set cube)" .
    with dim inv same_arrangement_invariant [OF same] UncolorVertices show ?thesis
      by (simp add: cube_invariant_def Cube_uncolor_vertices_by_id_list_def
          uncolor_vertices_by_id_list_def same_arrangement_def case_prod_unfold)
  next
    case (ColorEdges vertex_id_list color_string)
    with assms show ?thesis
      by (simp add: cube_invariant_def Cube_color_edges_by_id_list_def case_prod_unfold)
  next
    case (UncolorEdges vertex_id_list)
    with assms show ?thesis
      by (simp add: cube_invariant_def Cube_uncolor_edges_by_id_list_def case_prod_unfold)
  qed
qed

lemma apply_operations_invariant:
  assumes "cube_invariant cube"
  shows "cube_invariant (apply_operations cube operations) \<and>
     cube_dimension (apply_operations cube operations) = cube_dimension cube"
  using assms
proof (induction operations arbitrary: cube)
  case Nil
  then show ?case by simp
next
  case (Cons operation operations)
  from apply_operation_invariant [OF Cons.prems, of operation]
  have step: "cube_invariant (snd (apply_operation cube operation))"
    "cube_dimension (snd (apply_operation cube operation)) = cube_dimension cube"
    by simp_all
  from Cons.IH [OF step(1)] step(2) show ?case by simp
qed

lemma invariant_bijection:
  assumes inv: "vertex_set_invariant self"
  shows "(\<forall>vertex_id. 0 \<le> vertex_id \<and> vertex_id < 2 ^ nat (vs_dimension self) \<longrightarrow>
        (\<exists>!location. 0 \<le> location \<and> location < 2 ^ nat (vs_dimension self) \<and>
           lookup_id_by_location self location = Some vertex_id)) \<and>
     (\<forall>location. 0 \<le> location \<and> location < 2 ^ nat (vs_dimension self) \<longrightarrow>
        (\<exists>!vertex. lookup_vertex_by_location self location = Some vertex)) \<and>
     distinct (vs_vertices self)"
proof (intro conjI allI impI)
  let ?n = "length (vs_vertices self)"
  from inv have len: "?n = 2 ^ nat (vs_dimension self)"
    and all: "set (location_ids self) = {0..<2 ^ nat (vs_dimension self)}"
    by (simp_all add: vertex_set_invariant_def)
  from len have bound: "int ?n = 2 ^ nat (vs_dimension self)" by simp
  note distinct = invariant_ids(1) [OF inv]
  have lookup: "lookup_id_by_location self location = Some (location_ids self ! nat location)"
    if "0 \<le> location" "location < 2 ^ nat (vs_dimension self)" for location
  proof -
    from that bound have "nat location < ?n" by simp
    from lookup_id_by_location_in_range [OF this] that(1) this show ?thesis
      by (simp add: location_ids_def)
  qed
  {
    fix vertex_id :: int
    assume "0 \<le> vertex_id \<and> vertex_id < 2 ^ nat (vs_dimension self)"
    with all have "vertex_id \<in> set (location_ids self)" by simp
    then obtain i where i: "i < ?n" "location_ids self ! i = vertex_id"
      by (auto simp: in_set_conv_nth location_ids_def)
    show "\<exists>!location. 0 \<le> location \<and> location < 2 ^ nat (vs_dimension self) \<and>
        lookup_id_by_location self location = Some vertex_id"
    proof (rule ex1I [of _ "int i"])
      from i bound lookup [of "int i"]
      show "0 \<le> int i \<and> int i < 2 ^ nat (vs_dimension self) \<and>
          lookup_id_by_location self (int i) = Some vertex_id"
        by simp
    next
      fix location
      assume location: "0 \<le> location \<and> location < 2 ^ nat (vs_dimension self) \<and>
        lookup_id_by_location self location = Some vertex_id"
      with lookup [of location] have "location_ids self ! nat location = location_ids self ! i"
        using i(2) by simp
      moreover from location bound have "nat location < length (location_ids self)"
        by (simp add: location_ids_def)
      moreover from i(1) have "i < length (location_ids self)" by (simp add: location_ids_def)
      ultimately have "nat location = i"
        using distinct by (simp add: nth_eq_iff_index_eq)
      moreover from location have "0 \<le> location" by simp
      ultimately show "location = int i" by linarith
    qed
  }
  {
    fix location :: int
    assume "0 \<le> location \<and> location < 2 ^ nat (vs_dimension self)"
    with bound have "lookup_vertex_by_location self location =
        Some (vs_vertices self ! nat location)"
      by (simp add: lookup_vertex_by_location_cases Let_def)
    then show "\<exists>!vertex. lookup_vertex_by_location self location = Some vertex" by simp
  }
  from distinct show "distinct (vs_vertices self)"
    by (simp add: location_ids_def distinct_map)
qed

section \<open>Operations on a cube\<close>

text \<open>
  Claim C1. Take the cube \<^verbatim>\<open>Cube(d)\<close> for any \<open>d \<ge> 0\<close> and apply any sequence of the
  public operations to it (rotations with any index list, valid or not: an invalid one
  raises before a vertex is moved; reflections with any mask; resets; colorings and
  uncolorings of vertices and edges), going on after an operation that raises. In the
  cube that results there are \<open>N = 2^d\<close> locations, every id in \<open>[0, N)\<close> is found at
  exactly one location of \<open>[0, N)\<close>, every location of \<open>[0, N)\<close> holds exactly one
  vertex, and no vertex is at two locations.
\<close>

theorem bijection_invariant_after_operations:
  assumes "0 \<le> dimension"
  shows "\<exists>cube. Cube_init dimension = Inr cube \<and>
     cube_dimension (apply_operations cube operations) = dimension \<and>
     int (length (vs_vertices (cube_vertex_set (apply_operations cube operations)))) =
       how_many_bit_strings dimension \<and>
     (\<forall>vertex_id. 0 \<le> vertex_id \<and> vertex_id < how_many_bit_strings dimension \<longrightarrow>
        (\<exists>!location. 0 \<le> location \<and> location < how_many_bit_strings dimension \<and>
           lookup_id_by_location (cube_vertex_set (apply_operations cube operations)) location =
             Some vertex_id)) \<and>
     (\<forall>location. 0 \<le> location \<and> location < how_many_bit_strings dimension \<longrightarrow>
        (\<exists>!vertex.
           lookup_vertex_by_location (cube_vertex_set (apply_operations cube operations)) location =
             Some vertex)) \<and>
     distinct (vs_vertices (cube_vertex_set (apply_operations cube operations)))"
proof -
  from Cube_init_result [OF assms] obtain cube where
    init: "Cube_init dimension = Inr cube"
    and fields: "cube_dimension cube = dimension" "cube_vertex_set cube = VertexSet_init dimension"
    by force
  have "vs_dimension (VertexSet_init dimension) = dimension"
    by (simp add: VertexSet_init_def Let_def)
  with fields VertexSet_init_invariant [OF assms] have "cube_invariant cube"
    by (simp add: cube_invariant_def)
  from apply_operations_invariant [OF this, of operations] fields(1)
  have dim: "cube_dimension (apply_operations cube operations) = dimension"
    and vs_dim: "vs_dimension (cube_vertex_set (apply_operations cube operations)) = dimension"
    and inv: "vertex_set_invariant (cube_vertex_set (apply_operations cube operations))"
    by (simp_all add: cube_invariant_def)
  from assms have n: "how_many_bit_strings dimension = 2 ^ nat dimension"
    by (simp add: how_many_bit_strings_def)
  from inv vs_dim have
    "int (length (vs_vertices (cube_vertex_set (apply_operations cube operations)))) =
       2 ^ nat dimension"
    by (simp add: vertex_set_invariant_def)
  with init dim invariant_bijection [OF inv] show ?thesis
    unfolding n vs_dim by blast
qed

theorem bijection_invariant_after_operations_witness:
  "\<exists>cube. Cube_init 2 = Inr cube \<and>
     vs_vertices (cube_vertex_set (apply_operations cube
        [Rotate [1, 0] False, ColorVertices [1] ''red'', Reflect 1 True,
         Rotate [0, 0] True, UncolorEdges [0, 1]])) = [2, 0, 3, 1] \<and>
     distinct (vs_vertices (cube_vertex_set (apply_operations cube
        [Rotate [1, 0] False, ColorVertices [1] ''red'', Reflect 1 True,
         Rotate [0, 0] True, UncolorEdges [0, 1]]))) \<and>
     cube_dimension (apply_operations cube
        [Rotate [1, 0] False, ColorVertices [1] ''red'', Reflect 1 True,
         Rotate [0, 0] True, UncolorEdges [0, 1]]) = 2"
proof -
  have run: "(case Cube_init 2 of
      Inl e \<Rightarrow> []
    | Inr cube \<Rightarrow>
        vs_vertices (cube_vertex_set (apply_operations cube
          [Rotate [1, 0] False, ColorVertices [1] ''red'', Reflect 1 True,
           Rotate [0, 0] True, UncolorEdges [0, 1]]))) = [2, 0, 3, 1]"
    by code_simp
  have "(0::int) \<le> 2" by simp
  from bijection_invariant_after_operations [OF this, of "[Rotate [1, 0] False, ColorVertices [1] ''red'', Reflect 1 True,
         Rotate [0, 0] True, UncolorEdges [0, 1]]"]
  obtain cube where cube: "Cube_init 2 = Inr cube"
    and rest: "distinct (vs_vertices (cube_vertex_set (apply_operations cube
        [Rotate [1, 0] False, ColorVertices [1] ''red'', Reflect 1 True,
         Rotate [0, 0] True, UncolorEdges [0, 1]])))"
      "cube_dimension (apply_operations cube
        [Rotate [1, 0] False, ColorVertices [1] ''red'', Reflect 1 True,
         Rotate [0, 0] True, UncolorEdges [0, 1]]) = 2"
    by blast
  from run cube have "vs_vertices (cube_vertex_set (apply_operations cube
        [Rotate [1, 0] False, ColorVertices [1] ''red'', Reflect 1 True,
         Rotate [0, 0] True, UncolorEdges [0, 1]])) = [2, 0, 3, 1]"
    by simp
  with cube rest show ?thesis by blast
qed

text \<open>
  Claim C2. For a cube of dimension \<open>d \<ge> 0\<close> with its \<open>2^d\<close> locations, any integer mask
  and either value of \<^verbatim>\<open>preserve_colors\<close>, reflecting twice with the same mask raises
  nothing and leaves the list of vertices as it was before the first reflection, so
  every location holds the vertex it held before.
\<close>

theorem reflect_twice_restores_locations:
  assumes dim: "0 \<le> vs_dimension (cube_vertex_set cube)"
    and len: "int (length (vs_vertices (cube_vertex_set cube))) =
       how_many_bit_strings (vs_dimension (cube_vertex_set cube))"
  shows "\<exists>once twice.
     Cube_reflect cube bit_mask preserve_colors = (None, once) \<and>
     Cube_reflect once bit_mask preserve_colors = (None, twice) \<and>
     vs_vertices (cube_vertex_set twice) = vs_vertices (cube_vertex_set cube) \<and>
     (\<forall>location. lookup_vertex_by_location (cube_vertex_set twice) location =
        lookup_vertex_by_location (cube_vertex_set cube) location)"
proof -
  let ?self = "cube_vertex_set cube"
  define n where "n = nat (vs_dimension ?self)"
  from dim len have len0: "length (vs_vertices ?self) = 2 ^ nat (vs_dimension ?self)"
    by (simp add: how_many_bit_strings_def flip: of_nat_eq_iff)
  define once where "once = snd (reflect ?self bit_mask preserve_colors)"
  from reflect_moves [OF dim len0, of bit_mask preserve_colors] obtain flips where
    flips: "truncate_within_dimension bit_mask (vs_dimension ?self) = Inr flips"
    and range: "0 \<le> flips" "flips < 2 ^ nat (vs_dimension ?self)"
    and ok1: "fst (reflect ?self bit_mask preserve_colors) = None"
    and moved1: "moved_by (\<lambda>i. nat (int i XOR flips)) ?self once"
    by (auto simp: once_def)
  from moved1 have dim1: "vs_dimension once = vs_dimension ?self"
    and len1: "length (vs_vertices once) = length (vs_vertices ?self)"
    and nth1: "\<And>i. i < length (vs_vertices ?self) \<Longrightarrow>
        vs_vertices once ! nat (int i XOR flips) = vs_vertices ?self ! i"
    by (simp_all add: moved_by_def)
  define twice where "twice = snd (reflect once bit_mask preserve_colors)"
  from dim dim1 have dim': "0 \<le> vs_dimension once" by simp
  from len0 len1 dim1 have len': "length (vs_vertices once) = 2 ^ nat (vs_dimension once)"
    by simp
  from reflect_moves [OF dim' len', of bit_mask preserve_colors] flips dim1
  have ok2: "fst (reflect once bit_mask preserve_colors) = None"
    and moved2: "moved_by (\<lambda>i. nat (int i XOR flips)) once twice"
    by (auto simp: twice_def)
  from moved2 len1 have len2: "length (vs_vertices twice) = length (vs_vertices ?self)"
    and nth2: "\<And>i. i < length (vs_vertices ?self) \<Longrightarrow>
        vs_vertices twice ! nat (int i XOR flips) = vs_vertices once ! i"
    by (simp_all add: moved_by_def)
  have restored: "vs_vertices twice = vs_vertices ?self"
  proof (rule nth_equalityI)
    show "length (vs_vertices twice) = length (vs_vertices ?self)" by (rule len2)
    fix i assume "i < length (vs_vertices twice)"
    with len2 len0 have i: "i < 2 ^ nat (vs_dimension ?self)" by simp
    let ?j = "nat (int i XOR flips)"
    from flip_target(2,3) [OF range i] len0 have j: "?j < length (vs_vertices ?self)"
      and i': "nat (int ?j XOR flips) = i" by simp_all
    from nth2 [OF j] i' have "vs_vertices twice ! i = vs_vertices once ! ?j" by simp
    also from i len0 have "\<dots> = vs_vertices ?self ! i" by (simp add: nth1)
    finally show "vs_vertices twice ! i = vs_vertices ?self ! i" .
  qed
  have 1: "Cube_reflect cube bit_mask preserve_colors =
      (None, cube\<lparr>cube_vertex_set := once\<rparr>)"
    using ok1 by (simp add: Cube_reflect_def once_def case_prod_unfold)
  have 2: "Cube_reflect (cube\<lparr>cube_vertex_set := once\<rparr>) bit_mask preserve_colors =
      (None, cube\<lparr>cube_vertex_set := twice\<rparr>)"
    using ok2 by (simp add: Cube_reflect_def twice_def case_prod_unfold)
  from restored have "lookup_vertex_by_location twice location =
      lookup_vertex_by_location ?self location" for location
    by (simp add: lookup_vertex_by_location_def)
  with 1 2 restored show ?thesis by simp
qed

theorem reflect_twice_restores_locations_witness:
  "\<exists>cube once twice. Cube_init 2 = Inr cube \<and>
     Cube_reflect cube (- 3) True = (None, once) \<and>
     Cube_reflect once (- 3) True = (None, twice) \<and>
     vs_vertices (cube_vertex_set twice) = vs_vertices (cube_vertex_set cube)"
proof -
  have "(0::int) \<le> 2" by simp
  from Cube_init_result [OF this] obtain cube where cube: "Cube_init 2 = Inr cube"
    and vertex_set: "cube_vertex_set cube = VertexSet_init 2"
    by force
  have "0 \<le> vs_dimension (cube_vertex_set cube)"
    "int (length (vs_vertices (cube_vertex_set cube))) =
       how_many_bit_strings (vs_dimension (cube_vertex_set cube))"
    by (simp_all add: vertex_set VertexSet_init_def how_many_bit_strings_def py_range_def)
  from reflect_twice_restores_locations [OF this, of "- 3" True] cube show ?thesis by blast
qed

section \<open>Induced edges, pair by pair\<close>

text \<open>
  What \<^verbatim>\<open>get_induced_edges_from_id_list\<close> does return: the pairs of listed ids, the
  earlier one first, that are keys of the edge set as they stand.
\<close>

lemma get_induced_edges_from_id_list_pairs:
  "set (get_induced_edges_from_id_list self vertex_id_list) =
     {(vertex_id_list ! i, vertex_id_list ! j) |i j.
        i \<le> j \<and> j < length vertex_id_list \<and>
        in_edges (vertex_id_list ! i, vertex_id_list ! j) (es_edges self)}"
proof (intro set_eqI iffI)
  fix e assume "e \<in> set (get_induced_edges_from_id_list self vertex_id_list)"
  then show "e \<in> {(vertex_id_list ! i, vertex_id_list ! j) |i j.
        i \<le> j \<and> j < length vertex_id_list \<and>
        in_edges (vertex_id_list ! i, vertex_id_list ! j) (es_edges self)}"
    by (fastforce simp: get_induced_edges_from_id_list_def Let_def split: if_splits)
next
  fix e assume "e \<in> {(vertex_id_list ! i, vertex_id_list ! j) |i j.
        i \<le> j \<and> j < length vertex_id_list \<and>
        in_edges (vertex_id_list ! i, vertex_id_list ! j) (es_edges self)}"
  then obtain i j where e: "e = (vertex_id_list ! i, vertex_id_list ! j)"
    and ij: "i \<le> j" "j < length vertex_id_list"
    and edge: "in_edges (vertex_id_list ! i, vertex_id_list ! j) (es_edges self)"
    by blast
  let ?row = "\<lambda>i. concat (map (\<lambda>j.
      (let edge = (vertex_id_list ! i, vertex_id_list ! j)
       in if in_edges edge (es_edges self) then [edge] else [])) [i..<length vertex_id_list])"
  from ij(2) ij(1) edge have row: "e \<in> set (?row i)"
    by (auto simp: e Let_def intro!: bexI [of _ j])
  from ij have "i \<in> set [0..<length vertex_id_list]" by simp
  from this row have "e \<in> (\<Union>i \<in> set [0..<length vertex_id_list]. set (?row i))"
    by (rule UN_I)
  then show "e \<in> set (get_induced_edges_from_id_list self vertex_id_list)"
    by (simp add: get_induced_edges_from_id_list_def Let_def)
qed

lemma get_induced_edges_from_id_list_scenario:
  "\<exists>cube. Cube_init 2 = Inr cube \<and>
     get_induced_edges_from_id_list (cube_edge_set cube) [0, 1, 3] = [(0, 1), (1, 3)]"
proof -
  have "(case Cube_init 2 of
      Inl e \<Rightarrow> []
    | Inr cube \<Rightarrow> get_induced_edges_from_id_list (cube_edge_set cube) [0, 1, 3]) =
      [(0, 1), (1, 3)]"
    by code_simp
  moreover have "(0::int) \<le> 2" by simp
  from Cube_init_result [OF this] obtain cube where "Cube_init 2 = Inr cube" by blast
  ultimately show ?thesis by auto
qed

end
